theory Spec2Isabelle
  imports Main "HOL-Library.Word"
begin

unbundle bit_operations_syntax

section \<open>Data model\<close>

text \<open>
  A buffer is Go's \<^verbatim>\<open>[]byte\<close> and an address is a Go \<^verbatim>\<open>string\<close>: both are byte
  sequences, modelled as lists of 8-bit characters. Offsets and counts are Go \<^verbatim>\<open>int\<close>s,
  modelled as \<^typ>\<open>int\<close> (every offset the code computes lies between \<open>-1\<close> and the
  buffer length, so 64-bit wrap-around never occurs).
\<close>

type_synonym byte = char

abbreviation newline :: byte where
  "newline \<equiv> CHR 0x0A"

text \<open>The Go errors the address code returns, named as in the specification.\<close>

datatype error =
    InvalidAddress
  | ParseError
  | AddressOutOfRange
  | InvalidPattern
  | NoMatch
  | UnsupportedDirection

text \<open>Run-time panics of Go: an index or a slice bound outside the sequence.\<close>

datatype panic = IndexOutOfRange | SliceOutOfRange

text \<open>
  The outcome of a call: the returned range, the returned error, or a panic that
  unwinds the caller.
\<close>

datatype 'a result = Ok 'a | Err error | Abort panic

text \<open>
  The direction byte \<^verbatim>\<open>dir\<close> of the source is \<^verbatim>\<open>0\<close>, \<^verbatim>\<open>'+'\<close> or \<^verbatim>\<open>'-'\<close>.
\<close>

abbreviation nodir :: char where
  "nodir \<equiv> CHR 0x00"

section \<open>Library functions the code calls\<close>

subsection \<open>unicode/utf8.DecodeRune (size component)\<close>

text \<open>
  Go's \<^verbatim>\<open>utf8.DecodeRune\<close> classifies the first byte with the table \<^verbatim>\<open>first\<close>
  (\<^verbatim>\<open>as = 0xF0\<close> for ASCII, \<^verbatim>\<open>xx = 0xF1\<close> for an invalid lead byte, otherwise the
  size in the low three bits and the index of the accept range of the second byte in
  the high four) and returns size 1 for every invalid or truncated encoding.
\<close>

definition first :: "byte \<Rightarrow> nat" where
  "first b =
     (let v = (of_char b :: nat) in
      if v < 0x80 then 0xF0
      else if v < 0xC2 then 0xF1
      else if v < 0xE0 then 0x02
      else if v = 0xE0 then 0x13
      else if v < 0xED then 0x03
      else if v = 0xED then 0x23
      else if v < 0xF0 then 0x03
      else if v = 0xF0 then 0x34
      else if v < 0xF4 then 0x04
      else if v = 0xF4 then 0x44
      else 0xF1)"

definition acceptRanges :: "nat \<Rightarrow> nat \<times> nat" where
  "acceptRanges k =
     (if k = 1 then (0xA0, 0xBF)
      else if k = 2 then (0x80, 0x9F)
      else if k = 3 then (0x90, 0xBF)
      else if k = 4 then (0x80, 0x8F)
      else (0x80, 0xBF))"

definition contByte :: "byte \<Rightarrow> bool" where
  "contByte b \<longleftrightarrow> 0x80 \<le> (of_char b :: nat) \<and> (of_char b :: nat) \<le> 0xBF"

fun DecodeRuneSize :: "byte list \<Rightarrow> nat" where
  "DecodeRuneSize [] = 0"
| "DecodeRuneSize (p0 # ps) =
     (let x = first p0 in
      if x \<ge> 0xF0 then 1
      else
        let sz = x mod 8; accept = acceptRanges (x div 16) in
        if length (p0 # ps) < sz then 1
        else
          let b1 = (of_char (ps ! 0) :: nat) in
          if b1 < fst accept \<or> snd accept < b1 then 1
          else if sz \<le> 2 then 2
          else if \<not> contByte (ps ! 1) then 1
          else if sz \<le> 3 then 3
          else if \<not> contByte (ps ! 2) then 1
          else 4)"

subsection \<open>strconv.Atoi on a run of decimal digits\<close>

definition isDigit :: "char \<Rightarrow> bool" where
  "isDigit c \<longleftrightarrow> \<not> (of_char c < (of_char CHR ''0'' :: nat) \<or> of_char c > (of_char CHR ''9'' :: nat))"

definition digitVal :: "char \<Rightarrow> int" where
  "digitVal c = int (of_char c) - int (of_char CHR ''0'')"

text \<open>
  The evaluator calls \<^verbatim>\<open>strconv.Atoi\<close> only on a non-empty run of decimal digits, where
  it fails exactly when the value does not fit a 64-bit \<^verbatim>\<open>int\<close>.
\<close>

definition Atoi :: "string \<Rightarrow> int result" where
  "Atoi s =
     (if s = [] \<or> \<not> list_all isDigit s then Err ParseError
      else
        let v = foldl (\<lambda>a c. 10 * a + digitVal c) 0 s in
        if v > 9223372036854775807 then Err ParseError else Ok v)"

subsection \<open>regexp\<close>

text \<open>
  The regular-expression engine is Go's \<^verbatim>\<open>regexp\<close> package, which is not part of the
  repository: it is a parameter of the model. A compiled expression is its
  \<^verbatim>\<open>FindIndex\<close> method (\<open>None\<close> for the \<^verbatim>\<open>nil\<close> slice of "no match", otherwise the
  two offsets of the leftmost match); \<^verbatim>\<open>regexp.Compile\<close> maps a pattern to a compiled
  expression, or to \<open>None\<close> when it returns an error.
\<close>

type_synonym regexp = "byte list \<Rightarrow> (nat \<times> nat) option"

type_synonym regexp_lib = "string \<Rightarrow> regexp option"

text \<open>
  What every \<^verbatim>\<open>FindIndex\<close> guarantees: the match it reports lies inside the slice it
  searched.
\<close>

definition regexp_ok :: "regexp_lib \<Rightarrow> bool" where
  "regexp_ok rx \<longleftrightarrow>
     (\<forall>pattern re bs a b. rx pattern = Some re \<longrightarrow> re bs = Some (a, b) \<longrightarrow> a \<le> b \<and> b \<le> length bs)"

section \<open>addrNumber\<close>

text \<open>
  Forward, rune mode:
  \<^verbatim>\<open>for ; n > 0 && pos < len(data); n-- { _, size := utf8.DecodeRune(data[pos:]); pos += size }\<close>.
  The loop yields the final \<open>pos\<close> and \<open>n\<close>; slicing at a negative \<open>pos\<close> panics.
\<close>

function runeFwd :: "byte list \<Rightarrow> int \<Rightarrow> int \<Rightarrow> (int \<times> int) result" where
  "runeFwd data pos n =
     (if n > 0 \<and> pos < int (length data) then
        (if pos < 0 then Abort SliceOutOfRange
         else runeFwd data (pos + int (DecodeRuneSize (drop (nat pos) data))) (n - 1))
      else Ok (pos, n))"
  by pat_completeness auto
termination
  by (relation "measure (\<lambda>(data, pos, n). nat n)") auto

declare runeFwd.simps [simp del]

text \<open>
  Forward, line mode, first loop ("find next beginning of line"), entered when
  \<open>hi > 0\<close>: \<^verbatim>\<open>for hi < len(data) && data[hi-1] != '\n' { hi++ }\<close>.
\<close>

function snapFwd :: "byte list \<Rightarrow> int \<Rightarrow> int" where
  "snapFwd data hi =
     (if hi < int (length data) \<and> data ! nat (hi - 1) \<noteq> newline
      then snapFwd data (hi + 1) else hi)"
  by pat_completeness auto
termination
  by (relation "measure (\<lambda>(data, hi). nat (int (length data) - hi))") auto

declare snapFwd.simps [simp del]

text \<open>
  Forward, line mode, second loop:
  \<^verbatim>\<open>for ; hi < len(data); hi++ { if data[hi] != '\n' { continue };
       switch n--; n { case 1: lo = hi + 1; case 0: return lo, hi + 1, nil } }\<close>.
  Leaving the loop leaves the \<^verbatim>\<open>switch\<close> and reaches the final
  \<^verbatim>\<open>return 0, 0, errors.New("address out of range")\<close>.
\<close>

function lineFwd :: "byte list \<Rightarrow> int \<Rightarrow> int \<Rightarrow> int \<Rightarrow> (int \<times> int) result" where
  "lineFwd data lo hi n =
     (if hi < int (length data) then
        (if hi < 0 then Abort IndexOutOfRange
         else if data ! nat hi \<noteq> newline then lineFwd data lo (hi + 1) n
         else if n - 1 = 1 then lineFwd data (hi + 1) (hi + 1) (n - 1)
         else if n - 1 = 0 then Ok (lo, hi + 1)
         else lineFwd data lo (hi + 1) (n - 1))
      else Err AddressOutOfRange)"
  by pat_completeness auto
termination
  by (relation "measure (\<lambda>(data, lo, hi, n). nat (int (length data) - hi))") auto

declare lineFwd.simps [simp del]

text \<open>
  Backward, rune mode:
  \<^verbatim>\<open>for ; pos > 0 && n > 0; pos-- { if data[pos]&0xc0 != 0x80 { n-- } }\<close>
  followed by \<^verbatim>\<open>if n == 0 { return pos, pos, nil }; break\<close>.
  The index expression \<^verbatim>\<open>data[pos]\<close> panics when \<open>pos \<ge> len(data)\<close>.
\<close>

function runeBwd :: "byte list \<Rightarrow> int \<Rightarrow> int \<Rightarrow> (int \<times> int) result" where
  "runeBwd data pos n =
     (if pos > 0 \<and> n > 0 then
        (if pos \<ge> int (length data) then Abort IndexOutOfRange
         else if (of_char (data ! nat pos) :: 8 word) AND 0xC0 \<noteq> 0x80
           then runeBwd data (pos - 1) (n - 1)
           else runeBwd data (pos - 1) n)
      else if n = 0 then Ok (pos, pos) else Err AddressOutOfRange)"
  by pat_completeness auto
termination
  by (relation "measure (\<lambda>(data, pos, n). nat pos)") auto

declare runeBwd.simps [simp del]

text \<open>
  Backward, line mode, first loop ("find earlier beginning of line"):
  \<^verbatim>\<open>for lo > 0 && data[lo-1] != '\n' { lo-- }\<close>; \<^verbatim>\<open>data[lo-1]\<close> panics when
  \<open>lo > len(data)\<close>.
\<close>

function snapBwd :: "byte list \<Rightarrow> int \<Rightarrow> int result" where
  "snapBwd data lo =
     (if lo > 0 then
        (if lo - 1 \<ge> int (length data) then Abort IndexOutOfRange
         else if data ! nat (lo - 1) \<noteq> newline then snapBwd data (lo - 1)
         else Ok lo)
      else Ok lo)"
  by pat_completeness auto
termination
  by (relation "measure (\<lambda>(data, lo). nat lo)") auto

declare snapBwd.simps [simp del]

text \<open>
  Backward, line mode, second loop:
  \<^verbatim>\<open>for ; lo >= 0; lo-- { if lo > 0 && data[lo-1] != '\n' { continue };
       switch n--; n { case 1: hi = lo; case 0: return lo, hi, nil } }\<close>.
\<close>

function lineBwd :: "byte list \<Rightarrow> int \<Rightarrow> int \<Rightarrow> int \<Rightarrow> (int \<times> int) result" where
  "lineBwd data lo hi n =
     (if lo \<ge> 0 then
        (if lo > 0 \<and> lo - 1 \<ge> int (length data) then Abort IndexOutOfRange
         else if lo > 0 \<and> data ! nat (lo - 1) \<noteq> newline then lineBwd data (lo - 1) hi n
         else if n - 1 = 1 then lineBwd data (lo - 1) lo (n - 1)
         else if n - 1 = 0 then Ok (lo, hi)
         else lineBwd data (lo - 1) hi (n - 1))
      else Err AddressOutOfRange)"
  by pat_completeness auto
termination
  by (relation "measure (\<lambda>(data, lo, hi, n). nat (lo + 1))") auto

declare lineBwd.simps [simp del]

text \<open>
  The \<^verbatim>\<open>'+'\<close> case of \<^verbatim>\<open>addrNumber\<close>, which the \<^verbatim>\<open>0\<close> case falls through to after
  resetting \<open>lo\<close> and \<open>hi\<close>.
\<close>

definition addrForward :: "byte list \<Rightarrow> int \<Rightarrow> int \<Rightarrow> int \<Rightarrow> bool \<Rightarrow> (int \<times> int) result" where
  "addrForward data lo hi n charOffset =
     (if charOffset then
        (case runeFwd data hi n of
           Ok (pos, n') \<Rightarrow> if n' = 0 then Ok (pos, pos) else Err AddressOutOfRange
         | Err e \<Rightarrow> Err e
         | Abort p \<Rightarrow> Abort p)
      else
        let hi = (if hi > 0 then snapFwd data hi else hi);
            lo = hi
        in if n = 0 then Ok (lo, hi) else lineFwd data lo hi n)"

definition addrBackward :: "byte list \<Rightarrow> int \<Rightarrow> int \<Rightarrow> int \<Rightarrow> bool \<Rightarrow> (int \<times> int) result" where
  "addrBackward data lo hi n charOffset =
     (if charOffset then runeBwd data lo n
      else
        (case snapBwd data lo of
           Ok lo \<Rightarrow> (let hi = lo in if n = 0 then Ok (lo, hi) else lineBwd data lo hi n)
         | Err e \<Rightarrow> Err e
         | Abort p \<Rightarrow> Abort p))"

definition addrNumber ::
  "byte list \<Rightarrow> int \<Rightarrow> int \<Rightarrow> char \<Rightarrow> int \<Rightarrow> bool \<Rightarrow> (int \<times> int) result" where
  "addrNumber data lo hi dir n charOffset =
     (if dir = nodir then addrForward data 0 0 n charOffset
      else if dir = CHR ''+'' then addrForward data lo hi n charOffset
      else if dir = CHR ''-'' then addrBackward data lo hi n charOffset
      else Err AddressOutOfRange)"

section \<open>addrRegexp\<close>

definition addrRegexp ::
  "regexp_lib \<Rightarrow> byte list \<Rightarrow> int \<Rightarrow> int \<Rightarrow> char \<Rightarrow> string \<Rightarrow> (int \<times> int) result" where
  "addrRegexp rx data lo hi dir pattern =
     (case rx pattern of
        None \<Rightarrow> Err InvalidPattern
      | Some re \<Rightarrow>
          if dir = CHR ''-'' then Err UnsupportedDirection
          else if hi < 0 \<or> hi > int (length data) then Abort SliceOutOfRange
          else
            (case re (drop (nat hi) data) of
               Some (a, b) \<Rightarrow> Ok (int a + hi, int b + hi)
             | None \<Rightarrow>
                 if hi > 0 then
                   (case re data of
                      Some (a, b) \<Rightarrow> Ok (int a, int b)
                    | None \<Rightarrow> Err NoMatch)
                 else Err NoMatch))"

section \<open>addrToByteRange\<close>

text \<open>
  The scan for the end of a \<^verbatim>\<open>/pattern/\<close>, started at \<open>i = 1\<close>:
  \<^verbatim>\<open>for i = 1; i < len(addr); i++ { switch addr[i] { case '\\': i++;
       case '/': j = i + 1; break Regexp } }\<close>.
  It yields \<open>i\<close> and \<open>j\<close>, with \<open>j = 0\<close> when no closing delimiter was found.
\<close>

function regexpScan :: "string \<Rightarrow> nat \<Rightarrow> nat \<times> nat" where
  "regexpScan addr i =
     (if i < length addr then
        (if addr ! i = CHR 0x5C then regexpScan addr (i + 1 + 1)
         else if addr ! i = CHR ''/'' then (i, i + 1)
         else regexpScan addr (i + 1))
      else (i, 0))"
  by pat_completeness auto
termination
  by (relation "measure (\<lambda>(addr, i). length addr - i)") auto

declare regexpScan.simps [simp del]

definition regexpEnd :: "string \<Rightarrow> nat \<times> nat" where
  "regexpEnd addr = (case regexpScan addr 1 of (i, j) \<Rightarrow> (i, if j = 0 then i else j))"

lemma regexpScan_ge: "i \<le> fst (regexpScan addr i) \<and> (snd (regexpScan addr i) = 0 \<or> i < snd (regexpScan addr i))"
proof (induction addr i rule: regexpScan.induct)
  case (1 addr i)
  show ?case
  proof (cases "i < length addr")
    case False
    then show ?thesis by (subst (1 2 3) regexpScan.simps) simp
  next
    case True
    note lt = this
    show ?thesis
    proof (cases "addr ! i = CHR 0x5C")
      case True
      with lt "1.IH"(1) show ?thesis
        by (subst (1 2 3) regexpScan.simps) auto
    next
      case False
      note nb = this
      show ?thesis
      proof (cases "addr ! i = CHR ''/''")
        case True
        with lt nb show ?thesis by (subst (1 2 3) regexpScan.simps) simp
      next
        case False
        with lt nb "1.IH"(2) show ?thesis
          by (subst (1 2 3) regexpScan.simps) auto
      qed
    qed
  qed
qed

lemma regexpEnd_pos: "regexpEnd addr = (i, j) \<Longrightarrow> 1 \<le> i \<and> 1 \<le> j"
  using regexpScan_ge [of 1 addr]
  by (auto simp: regexpEnd_def split: prod.splits if_splits)

text \<open>
  The main loop of \<^verbatim>\<open>addrToByteRange\<close>, with its local variables \<open>lo\<close>, \<open>hi\<close>,
  \<open>dir\<close>, \<open>prevc\<close> and \<open>charOffset\<close> as arguments. An error ends the loop and is
  returned; the \<^verbatim>\<open>','\<close> case returns from inside the loop, after the recursive call
  \<^verbatim>\<open>addrToByteRange(addr[1:], hi, data)\<close>, which is the loop started afresh at
  \<open>(hi, hi)\<close>. After the loop a pending direction is applied with count 1.
\<close>

function addrLoop ::
  "regexp_lib \<Rightarrow> byte list \<Rightarrow> string \<Rightarrow> int \<Rightarrow> int \<Rightarrow> char \<Rightarrow> char \<Rightarrow> bool
     \<Rightarrow> (int \<times> int) result" where
  "addrLoop rx data [] lo hi dir prevc charOffset =
     (if dir \<noteq> nodir then addrNumber data lo hi dir 1 charOffset else Ok (lo, hi))"
| "addrLoop rx data (c # rest) lo hi dir prevc charOffset =
     (if c = CHR '','' then
        (if rest = [] then Ok (lo, int (length data))
         else
           (case addrLoop rx data rest hi hi nodir nodir False of
              Ok (_, hi') \<Rightarrow> Ok (lo, hi')
            | Err e \<Rightarrow> Err e
            | Abort p \<Rightarrow> Abort p))
      else if c = CHR ''+'' \<or> c = CHR ''-'' then
        (case (if prevc = CHR ''+'' \<or> prevc = CHR ''-''
               then addrNumber data lo hi prevc 1 charOffset else Ok (lo, hi)) of
           Ok (lo', hi') \<Rightarrow> addrLoop rx data rest lo' hi' c c charOffset
         | Err e \<Rightarrow> Err e
         | Abort p \<Rightarrow> Abort p)
      else if c = CHR ''$'' then
        addrLoop rx data rest (int (length data)) (int (length data))
          (if rest \<noteq> [] then CHR ''+'' else dir) c charOffset
      else if c = CHR ''#'' then
        addrLoop rx data rest lo hi dir c True
      else if isDigit c then
        (case Atoi (c # takeWhile isDigit rest) of
           Ok n \<Rightarrow>
             (case addrNumber data lo hi dir n charOffset of
                Ok (lo', hi') \<Rightarrow> addrLoop rx data (dropWhile isDigit rest) lo' hi' nodir c False
              | Err e \<Rightarrow> Err e
              | Abort p \<Rightarrow> Abort p)
         | Err e \<Rightarrow> Err e
         | Abort p \<Rightarrow> Abort p)
      else if c = CHR ''/'' then
        (case regexpEnd (c # rest) of
           (i, j) \<Rightarrow>
             if i > length (c # rest) then Abort SliceOutOfRange
             else
               (case addrRegexp rx data lo hi dir (take (i - 1) rest) of
                  Ok (lo', hi') \<Rightarrow> addrLoop rx data (drop j (c # rest)) lo' hi' dir c charOffset
                | Err e \<Rightarrow> Err e
                | Abort p \<Rightarrow> Abort p))
      else Err InvalidAddress)"
  by pat_completeness auto
termination
proof (relation "measure (\<lambda>(rx, data, addr, lo, hi, dir, prevc, charOffset). length addr)",
       goal_cases)
  case (7 rx data c rest lo hi dir prevc charOffset x y)
  from regexpEnd_pos [of "c # rest" x y] 7 have "1 \<le> y" by simp
  then show ?case by (cases y) simp_all
qed (auto simp: less_Suc_eq_le length_dropWhile_le)

definition addrToByteRange :: "regexp_lib \<Rightarrow> string \<Rightarrow> int \<Rightarrow> byte list \<Rightarrow> (int \<times> int) result" where
  "addrToByteRange rx addr start data = addrLoop rx data addr start start nodir nodir False"

section \<open>lineToByte and byteToLine\<close>

text \<open>
  The loop of \<^verbatim>\<open>lineToByte\<close>, \<^verbatim>\<open>for i, c := range data { if c == '\n' { if n--; n == 0
  { return i + 1 } } }\<close>, over the bytes still to visit, \<open>i\<close> being the index of the
  first of them. \<open>None\<close>: the loop ended without returning.
\<close>

fun lineToByteLoop :: "byte list \<Rightarrow> int \<Rightarrow> int \<Rightarrow> int option" where
  "lineToByteLoop [] i n = None"
| "lineToByteLoop (c # cs) i n =
     (if c = newline then
        (if n - 1 = 0 then Some (i + 1) else lineToByteLoop cs (i + 1) (n - 1))
      else lineToByteLoop cs (i + 1) n)"

definition lineToByte :: "byte list \<Rightarrow> int \<Rightarrow> int" where
  "lineToByte data n =
     (if n \<le> 1 then 0
      else
        (case lineToByteLoop data 0 (n - 1) of
           Some r \<Rightarrow> r
         | None \<Rightarrow> int (length data)))"

text \<open>
  The loop of \<^verbatim>\<open>byteToLine\<close>, \<^verbatim>\<open>for j, c := range data { if j == i { return l };
  if c == '\n' { l++ } }\<close>, followed by \<^verbatim>\<open>return l\<close>.
\<close>

fun byteToLineLoop :: "byte list \<Rightarrow> int \<Rightarrow> int \<Rightarrow> int \<Rightarrow> int" where
  "byteToLineLoop [] j i l = l"
| "byteToLineLoop (c # cs) j i l =
     (if j = i then l else byteToLineLoop cs (j + 1) i (if c = newline then l + 1 else l))"

definition byteToLine :: "byte list \<Rightarrow> int \<Rightarrow> int" where
  "byteToLine data i = byteToLineLoop data 0 i 1"

section \<open>Notions the properties are stated with\<close>

text \<open>
  Modelled from the spec: \<open>lineCount\<close>, the number of lines of a byte sequence, which
  the specification uses and the source does not define. It is taken to be the number of
  newline bytes, and one more for a non-empty last line without a newline.
\<close>

definition lineCount :: "byte list \<Rightarrow> nat" where
  "lineCount bs =
     count_list bs newline + (if bs \<noteq> [] \<and> last bs \<noteq> newline then 1 else 0)"

text \<open>
  The start of the next line at or after offset \<open>hi\<close>: \<open>hi\<close> itself when it is 0
  or follows a newline, otherwise the offset just past the next newline, or the buffer
  length when no newline follows.
\<close>

definition nextLineStart :: "byte list \<Rightarrow> nat \<Rightarrow> nat" where
  "nextLineStart data hi =
     (if hi = 0 then 0
      else min (length data) (hi + length (takeWhile (\<lambda>b. b \<noteq> newline) (drop (hi - 1) data))))"

text \<open>
  What a successful run of the second forward loop, started at \<open>(lo, hi)\<close> with
  count \<open>n\<close>, returns: \<open>hi'\<close> is just past the \<open>n\<close>-th newline at or after \<open>hi\<close>, and
  \<open>lo'\<close> is the start of the line that this newline ends.
\<close>

definition lineFwdPost :: "byte list \<Rightarrow> int \<Rightarrow> int \<Rightarrow> int \<Rightarrow> int \<Rightarrow> int \<Rightarrow> bool" where
  "lineFwdPost data lo hi n lo' hi' \<longleftrightarrow>
     hi < hi' \<and> hi' \<le> int (length data) \<and> data ! nat (hi' - 1) = newline \<and>
     int (count_list (take (nat (hi' - hi)) (drop (nat hi) data)) newline) = n \<and>
     (if n = 1 then lo' = lo \<and> (\<forall>i. hi \<le> i \<and> i < hi' - 1 \<longrightarrow> data ! nat i \<noteq> newline)
      else hi < lo' \<and> lo' < hi' \<and> data ! nat (lo' - 1) = newline \<and>
           (\<forall>i. lo' \<le> i \<and> i < hi' - 1 \<longrightarrow> data ! nat i \<noteq> newline))"

text \<open>An offset of the buffer, its end included.\<close>

definition inBuffer :: "byte list \<Rightarrow> int \<Rightarrow> bool" where
  "inBuffer data x \<longleftrightarrow> 0 \<le> x \<and> x \<le> int (length data)"

text \<open>
  The sizes of the runes that decoding a byte sequence from its start yields, one after
  the other, and the offsets at which these runes begin or end.
\<close>

function runeSizes :: "byte list \<Rightarrow> nat list" where
  "runeSizes bs =
     (if bs = [] then [] else DecodeRuneSize bs # runeSizes (drop (DecodeRuneSize bs) bs))"
  by pat_completeness auto
termination
proof (relation "measure length", goal_cases)
  case (2 bs)
  then obtain p0 ps where bs: "bs = p0 # ps" by (cases bs) auto
  have "0 < DecodeRuneSize (p0 # ps)"
    by (simp add: Let_def)
  with bs show ?case by simp
qed simp

declare runeSizes.simps [simp del]

definition runeBoundaries :: "byte list \<Rightarrow> nat list" where
  "runeBoundaries bs = map (\<lambda>k. sum_list (take k (runeSizes bs))) [0 ..< Suc (length (runeSizes bs))]"

text \<open>
  A stand-in for the \<^verbatim>\<open>regexp\<close> package at the patterns of the examples. A pattern
  without metacharacter is a literal: Go compiles it, and \<^verbatim>\<open>FindIndex\<close> reports its
  leftmost occurrence. Go rejects the pattern \<^verbatim>\<open>(\<close> (missing closing parenthesis);
  the stand-in rejects every pattern that has a metacharacter.
\<close>

fun findLiteral :: "byte list \<Rightarrow> nat \<Rightarrow> byte list \<Rightarrow> (nat \<times> nat) option" where
  "findLiteral pat k [] = (if pat = [] then Some (k, k) else None)"
| "findLiteral pat k (b # bs) =
     (if take (length pat) (b # bs) = pat then Some (k, k + length pat)
      else findLiteral pat (k + 1) bs)"

definition metaChars :: "char list" where
  "metaChars = CHR 0x5C # ''.+*?()|[]{}^$''"

definition literalRegexp :: regexp_lib where
  "literalRegexp pattern =
     (if list_ex (\<lambda>c. c \<in> set metaChars) pattern then None
      else Some (findLiteral pattern 0))"

section \<open>The empty address\<close>

text \<open>
  C10. Evaluating the empty address succeeds and returns the initial range unchanged:
  from every start offset \<open>s\<close> (in particular every \<open>0 \<le> s \<le> len(buffer)\<close>), resolving
  the empty expression yields \<open>(s, s)\<close> and no error.
\<close>

theorem empty_address_returns_start:
  "addrToByteRange rx [] s data = Ok (s, s)"
  by (simp add: addrToByteRange_def)

section \<open>Outcomes that are not values\<close>

text \<open>
  C1. Address resolution does not always return a value. A backward rune-mode step
  taken from the end of a non-empty buffer reads \<^verbatim>\<open>data[pos]\<close> with \<open>pos = len(data)\<close>:
  on the buffer \<^verbatim>\<open>a\<close> the address \<^verbatim>\<open>$-#1\<close> panics with an index out of range. A
  pattern that ends in a backslash moves the scan index past the end of the address:
  the address made of a slash and a backslash panics with a slice bound out of range.
  Both hold whatever the regexp library.
\<close>

theorem backward_rune_step_from_end_panics:
  "addrToByteRange rx ''$-#1'' 0 ''a'' = Abort IndexOutOfRange \<and>
   addrToByteRange rx [CHR ''/'', CHR 0x5C] 0 ''a'' = Abort SliceOutOfRange"
  by (simp add: addrToByteRange_def addrNumber_def addrBackward_def runeBwd.simps
        isDigit_def Atoi_def digitVal_def regexpEnd_def regexpScan.simps)

section \<open>The comma\<close>

text \<open>
  C3. On the buffer \<^verbatim>\<open>line1\nline2\nline3\n\<close> the address \<^verbatim>\<open>1,2\<close> resolves to
  \<open>[0,12)\<close> and \<^verbatim>\<open>0,$\<close> to \<open>[0,18)\<close>. But at a comma the code returns without applying
  a pending direction of the left side: on the buffer \<^verbatim>\<open>a\nb\n\<close> the address \<^verbatim>\<open>1+\<close>
  alone resolves to the second line, \<open>[2,4)\<close>, and \<^verbatim>\<open>1+,\<close> resolves to \<open>[0,4)\<close>, whose
  \<open>lo\<close> is that of \<^verbatim>\<open>1\<close>, not that of the left side \<^verbatim>\<open>1+\<close>.
\<close>

theorem comma_drops_pending_direction:
  "addrToByteRange rx ''1,2'' 0 (''line1'' @ [newline] @ ''line2'' @ [newline] @ ''line3'' @ [newline])
     = Ok (0, 12) \<and>
   addrToByteRange rx ''0,$'' 0 (''line1'' @ [newline] @ ''line2'' @ [newline] @ ''line3'' @ [newline])
     = Ok (0, 18) \<and>
   addrToByteRange rx ''1+'' 0 [CHR ''a'', newline, CHR ''b'', newline] = Ok (2, 4) \<and>
   addrToByteRange rx ''1+,'' 0 [CHR ''a'', newline, CHR ''b'', newline] = Ok (0, 4)"
  by (simp add: addrToByteRange_def addrNumber_def addrForward_def lineFwd.simps
        snapFwd.simps isDigit_def Atoi_def digitVal_def)

section \<open>Regular-expression search\<close>

text \<open>
  C5 (as amended). For every buffer and every pattern that compiles, a search requested
  with direction backward signals \<open>UnsupportedDirection\<close>, whatever the buffer holds.
  The pattern is compiled first: a pattern that fails to compile signals
  \<open>InvalidPattern\<close>, whatever the direction.
\<close>

theorem backward_regexp_search:
  "(rx pattern \<noteq> None \<longrightarrow>
      addrRegexp rx data lo hi (CHR ''-'') pattern = Err UnsupportedDirection) \<and>
   (rx pattern = None \<longrightarrow>
      addrRegexp rx data lo hi dir pattern = Err InvalidPattern)"
  by (auto simp: addrRegexp_def)

theorem backward_regexp_search_witness:
  "literalRegexp ''abc'' \<noteq> None \<and>
   addrRegexp literalRegexp ''xabc'' 0 0 (CHR ''-'') ''abc'' = Err UnsupportedDirection \<and>
   literalRegexp ''('' = None \<and>
   addrRegexp literalRegexp ''xabc'' 0 0 (CHR ''+'') ''('' = Err InvalidPattern"
  using backward_regexp_search [of literalRegexp "''abc''" "''xabc''" 0 0 "CHR ''+''"]
    backward_regexp_search [of literalRegexp "''(''" "''xabc''" 0 0 "CHR ''+''"]
  by (simp add: literalRegexp_def metaChars_def)

text \<open>
  The claim as first stated fails: Go rejects the pattern \<^verbatim>\<open>(\<close>, and the backward
  search \<^verbatim>\<open>-/(/\<close> signals \<open>InvalidPattern\<close>, not \<open>UnsupportedDirection\<close>.
\<close>

theorem backward_search_of_bad_pattern:
  "addrRegexp literalRegexp ''xabc'' 0 0 (CHR ''-'') ''('' = Err InvalidPattern \<and>
   addrToByteRange literalRegexp ''-/(/'' 0 ''xabc'' = Err InvalidPattern"
  by (simp add: addrToByteRange_def addrRegexp_def literalRegexp_def metaChars_def
        regexpEnd_def regexpScan.simps isDigit_def)

text \<open>
  C6. A forward search of a compiled pattern from an offset \<open>hi\<close> of the buffer returns
  the match found in \<^verbatim>\<open>data[hi:]\<close>, at its absolute offsets; if there is none and
  \<open>hi > 0\<close>, the match found in the whole buffer; it signals \<open>NoMatch\<close> exactly when
  neither search finds a match. On \<^verbatim>\<open>abcXabc\<close>, searching \<^verbatim>\<open>/abc/\<close> from 4 yields
  \<open>[4,7)\<close> and from 7 wraps around to \<open>[0,3)\<close>.
\<close>

theorem forward_regexp_search:
  assumes "rx pattern = Some re" and "dir \<noteq> CHR ''-''" and "0 \<le> hi" and "hi \<le> int (length data)"
  shows "(\<forall>a b. re (drop (nat hi) data) = Some (a, b) \<longrightarrow>
            addrRegexp rx data lo hi dir pattern = Ok (hi + int a, hi + int b)) \<and>
         (\<forall>a b. re (drop (nat hi) data) = None \<and> 0 < hi \<and> re data = Some (a, b) \<longrightarrow>
            addrRegexp rx data lo hi dir pattern = Ok (int a, int b)) \<and>
         (addrRegexp rx data lo hi dir pattern = Err NoMatch \<longleftrightarrow>
            re (drop (nat hi) data) = None \<and> re data = None) \<and>
         addrRegexp literalRegexp ''abcXabc'' lo 4 (CHR ''+'') ''abc'' = Ok (4, 7) \<and>
         addrRegexp literalRegexp ''abcXabc'' lo 7 (CHR ''+'') ''abc'' = Ok (0, 3)"
proof -
  have ex: "addrRegexp literalRegexp ''abcXabc'' lo 4 (CHR ''+'') ''abc'' = Ok (4, 7) \<and>
         addrRegexp literalRegexp ''abcXabc'' lo 7 (CHR ''+'') ''abc'' = Ok (0, 3)"
    by (simp add: addrRegexp_def literalRegexp_def metaChars_def)
  have z: "hi = 0 \<Longrightarrow> drop (nat hi) data = data" by simp
  from assms z ex show ?thesis
    by (cases "hi = 0") (auto simp: addrRegexp_def split: option.splits)
qed

theorem forward_regexp_search_witness:
  "literalRegexp ''bc'' = Some (findLiteral ''bc'' 0) \<and>
   addrRegexp literalRegexp ''abcXabc'' 0 2 (CHR ''+'') ''bc'' = Ok (5, 7) \<and>
   addrRegexp literalRegexp ''abcXabc'' 0 7 (CHR ''+'') ''bc'' = Ok (1, 3) \<and>
   literalRegexp ''abd'' = Some (findLiteral ''abd'' 0) \<and>
   addrRegexp literalRegexp ''abcXabc'' 0 7 (CHR ''+'') ''abd'' = Err NoMatch"
proof -
  have c: "literalRegexp ''bc'' = Some (findLiteral ''bc'' 0)"
    and d: "literalRegexp ''abd'' = Some (findLiteral ''abd'' 0)"
    by (simp_all add: literalRegexp_def metaChars_def)
  have dir: "CHR ''+'' \<noteq> CHR ''-''" by simp
  have f: "findLiteral ''bc'' 0 (drop (nat 2) ''abcXabc'') = Some (3, 5)"
    and g: "findLiteral ''bc'' 0 (drop (nat 7) ''abcXabc'') = None"
    and h: "findLiteral ''bc'' 0 ''abcXabc'' = Some (1, 3)"
    and n: "findLiteral ''abd'' 0 (drop (nat 7) ''abcXabc'') = None"
    and m: "findLiteral ''abd'' 0 ''abcXabc'' = None"
    by simp_all
  from forward_regexp_search [where rx = literalRegexp and re = "findLiteral ''bc'' 0"
         and data = "''abcXabc''" and hi = 2 and lo = 0, OF c dir] f
  have 1: "addrRegexp literalRegexp ''abcXabc'' 0 2 (CHR ''+'') ''bc'' = Ok (5, 7)"
    by simp
  from forward_regexp_search [where rx = literalRegexp and re = "findLiteral ''bc'' 0"
         and data = "''abcXabc''" and hi = 7 and lo = 0, OF c dir] g h
  have 2: "addrRegexp literalRegexp ''abcXabc'' 0 7 (CHR ''+'') ''bc'' = Ok (1, 3)"
    by simp
  from forward_regexp_search [where rx = literalRegexp and re = "findLiteral ''abd'' 0"
         and data = "''abcXabc''" and hi = 7 and lo = 0, OF d dir] n m
  have 3: "addrRegexp literalRegexp ''abcXabc'' 0 7 (CHR ''+'') ''abd'' = Err NoMatch"
    by simp
  from c d 1 2 3 show ?thesis by simp
qed

section \<open>Line numbers and byte offsets\<close>

lemma lineToByteLoop_None:
  "1 \<le> n \<Longrightarrow> lineToByteLoop cs i n = None \<longleftrightarrow> int (count_list cs newline) < n"
  by (induction cs arbitrary: i n) auto

lemma lineToByteLoop_Some:
  "1 \<le> n \<Longrightarrow> lineToByteLoop cs i n = Some r \<Longrightarrow>
     i < r \<and> r \<le> i + int (length cs) \<and> cs ! nat (r - i - 1) = newline \<and>
     int (count_list (take (nat (r - i - 1)) cs) newline) = n - 1"
proof (induction cs arbitrary: i n)
  case Nil
  then show ?case by simp
next
  case (Cons c cs)
  show ?case
  proof (cases "c = newline")
    case True
    note nl = this
    show ?thesis
    proof (cases "n = 1")
      case True
      with nl Cons.prems show ?thesis by auto
    next
      case False
      with nl Cons.prems have rec: "lineToByteLoop cs (i + 1) (n - 1) = Some r" and n1: "1 \<le> n - 1"
        by auto
      from Cons.IH [OF n1 rec] have ih: "i + 1 < r" "r \<le> i + 1 + int (length cs)"
        "cs ! nat (r - (i + 1) - 1) = newline"
        "int (count_list (take (nat (r - (i + 1) - 1)) cs) newline) = n - 1 - 1"
        by auto
      from ih(1) obtain k where k: "nat (r - i - 1) = Suc k" "nat (r - (i + 1) - 1) = k"
        by (metis Suc_nat_eq_nat_zadd1 add.commute diff_diff_eq diff_ge_0_iff_ge
            less_le_not_le zle_add1_eq_le add_diff_cancel_left' diff_add_cancel)
      with ih nl show ?thesis by auto
    qed
  next
    case False
    with Cons.prems have rec: "lineToByteLoop cs (i + 1) n = Some r" by auto
    from Cons.IH [OF Cons.prems(1) rec] have ih: "i + 1 < r" "r \<le> i + 1 + int (length cs)"
        "cs ! nat (r - (i + 1) - 1) = newline"
        "int (count_list (take (nat (r - (i + 1) - 1)) cs) newline) = n - 1"
        by auto
    from ih(1) have "nat (r - i - 1) = Suc (nat (r - (i + 1) - 1))" by linarith
    with ih False show ?thesis by auto
  qed
qed

lemma byteToLineLoop_count:
  "j \<le> i \<Longrightarrow> byteToLineLoop cs j i l = l + int (count_list (take (nat (i - j)) cs) newline)"
proof (induction cs arbitrary: j l)
  case Nil
  then show ?case by simp
next
  case (Cons c cs)
  show ?case
  proof (cases "j = i")
    case True
    then show ?thesis by simp
  next
    case False
    with Cons.prems have lt: "j + 1 \<le> i" by simp
    then have "nat (i - j) = Suc (nat (i - (j + 1)))" by linarith
    with Cons.IH [OF lt] False show ?thesis by simp
  qed
qed

lemma byteToLine_count:
  "0 \<le> i \<Longrightarrow> byteToLine data i = 1 + int (count_list (take (nat i) data) newline)"
  by (simp add: byteToLine_def byteToLineLoop_count)

lemma count_upto_newline:
  assumes "k < length cs" and "cs ! k = newline"
  shows "count_list (take (Suc k) cs) newline = Suc (count_list (take k cs) newline)"
  using assms by (simp add: take_Suc_conv_app_nth)

lemma lineToByte_in_range:
  assumes "2 \<le> n" and "n - 1 \<le> int (count_list data newline)"
  shows "0 < lineToByte data n \<and> lineToByte data n \<le> int (length data) \<and>
         data ! nat (lineToByte data n - 1) = newline \<and>
         int (count_list (take (nat (lineToByte data n - 1)) data) newline) = n - 2"
proof -
  from assms have n1: "1 \<le> n - 1" by simp
  with assms(2) lineToByteLoop_None [OF n1, of data 0]
  obtain r where r: "lineToByteLoop data 0 (n - 1) = Some r" by auto
  from lineToByteLoop_Some [OF n1 r] assms(1) r show ?thesis
    by (simp add: lineToByte_def)
qed

lemma lineToByte_clamp:
  assumes "int (count_list data newline) < n - 1"
  shows "lineToByte data n = (if n \<le> 1 then 0 else int (length data))"
proof (cases "n \<le> 1")
  case True
  then show ?thesis by (simp add: lineToByte_def)
next
  case False
  then have n1: "1 \<le> n - 1" by simp
  from lineToByteLoop_None [OF n1, of data 0] assms False show ?thesis
    by (simp add: lineToByte_def)
qed

lemma count_list_last:
  "bs \<noteq> [] \<Longrightarrow> count_list bs x = count_list (butlast bs) x + (if last bs = x then 1 else 0)"
  by (induction bs) auto

lemma count_list_take_le: "count_list (take k bs) x \<le> count_list bs x"
proof -
  have "count_list bs x = count_list (take k bs @ drop k bs) x" by simp
  also have "\<dots> = count_list (take k bs) x + count_list (drop k bs) x"
    by (simp only: count_list_append)
  finally show ?thesis by simp
qed

lemma lineToByte_last_newline:
  assumes "2 \<le> n" and "n - 1 = int (count_list data newline)" and "data \<noteq> []" and "last data = newline"
  shows "lineToByte data n = int (length data)"
proof -
  let ?r = "lineToByte data n"
  from lineToByte_in_range [of n data] assms
  have r: "0 < ?r" "?r \<le> int (length data)" "data ! nat (?r - 1) = newline"
    "int (count_list (take (nat (?r - 1)) data) newline) = n - 2" by auto
  from r(1,2) have k: "nat (?r - 1) < length data" "nat ?r = Suc (nat (?r - 1))" by linarith+
  from count_upto_newline [OF k(1) r(3)] k(2) r(4)
  have cnt: "int (count_list (take (nat ?r) data) newline) = n - 1" by simp
  show ?thesis
  proof (rule ccontr)
    assume "?r \<noteq> int (length data)"
    with r have lt: "nat ?r \<le> length data - 1" by linarith
    have "take (nat ?r) data = take (nat ?r) (butlast data)"
      using lt by (metis butlast_conv_take take_take min.absorb1)
    then have "count_list (take (nat ?r) data) newline \<le> count_list (butlast data) newline"
      by (simp add: count_list_take_le)
    moreover from count_list_last [OF assms(3), of newline] assms(4)
    have "count_list data newline = count_list (butlast data) newline + 1" by simp
    ultimately show False using cnt assms(2) by linarith
  qed
qed

text \<open>
  C9. \<^const>\<open>lineToByte\<close> maps every line number \<open>n \<le> 1\<close> to offset 0; for \<open>n \<ge> 2\<close>
  with at least \<open>n - 1\<close> newlines in the buffer it returns the offset just after the
  \<open>(n-1)\<close>-th newline (the byte before it is a newline, and \<open>n - 2\<close> newlines precede
  that byte); every line number beyond the line count is clamped to the buffer length,
  for instance \<open>lineCount + 5\<close>.
\<close>

theorem lineToByte_offsets:
  "(n \<le> 1 \<longrightarrow> lineToByte data n = 0) \<and>
   (2 \<le> n \<and> n - 1 \<le> int (count_list data newline) \<longrightarrow>
      0 < lineToByte data n \<and> lineToByte data n \<le> int (length data) \<and>
      data ! nat (lineToByte data n - 1) = newline \<and>
      int (count_list (take (nat (lineToByte data n - 1)) data) newline) = n - 2) \<and>
   (int (lineCount data) < n \<longrightarrow> lineToByte data n = int (length data)) \<and>
   lineToByte data (int (lineCount data) + 5) = int (length data)"
proof -
  have a: "n \<le> 1 \<longrightarrow> lineToByte data n = 0" by (simp add: lineToByte_def)
  have c: "lineToByte data m = int (length data)" if m: "int (lineCount data) < m" for m
  proof (cases "int (count_list data newline) < m - 1")
    case True
    show ?thesis
    proof (cases "m \<le> 1")
      case True
      have "0 < count_list data newline" if "data \<noteq> []" "last data = newline"
        using that count_list_last [of data newline] by simp
      with m True have "data = []" by (auto simp: lineCount_def split: if_splits)
      with True show ?thesis by (simp add: lineToByte_def)
    next
      case False
      with True lineToByte_clamp [of data m] show ?thesis by simp
    qed
  next
    case False
    with m have eq: "m - 1 = int (count_list data newline)" and t: "data = [] \<or> last data = newline"
      by (auto simp: lineCount_def split: if_splits)
    show ?thesis
    proof (cases "data = []")
      case True
      then show ?thesis by (simp add: lineToByte_def)
    next
      case False
      with t have l: "last data = newline" by simp
      with False count_list_last [of data newline] have "0 < count_list data newline" by simp
      with eq have "2 \<le> m" by simp
      from lineToByte_last_newline [OF this eq False l] show ?thesis .
    qed
  qed
  from a lineToByte_in_range [of n data] c [of n] c [of "int (lineCount data) + 5"]
  show ?thesis by simp
qed

theorem lineToByte_offsets_witness:
  "lineToByte [CHR ''a'', newline, CHR ''b'', newline, CHR ''c''] 0 = 0 \<and>
   lineToByte [CHR ''a'', newline, CHR ''b'', newline, CHR ''c''] 1 = 0 \<and>
   lineToByte [CHR ''a'', newline, CHR ''b'', newline, CHR ''c''] 2 = 2 \<and>
   lineToByte [CHR ''a'', newline, CHR ''b'', newline, CHR ''c''] 3 = 4 \<and>
   lineCount [CHR ''a'', newline, CHR ''b'', newline, CHR ''c''] = 3 \<and>
   lineToByte [CHR ''a'', newline, CHR ''b'', newline, CHR ''c''] 4 = 5 \<and>
   lineToByte [CHR ''a'', newline, CHR ''b'', newline, CHR ''c''] 8 = 5"
  using lineToByte_offsets [of 0 "[CHR ''a'', newline, CHR ''b'', newline, CHR ''c'']"]
    lineToByte_offsets [of 3 "[CHR ''a'', newline, CHR ''b'', newline, CHR ''c'']"]
    lineToByte_offsets [of 4 "[CHR ''a'', newline, CHR ''b'', newline, CHR ''c'']"]
  by (simp add: lineCount_def lineToByte_def)

text \<open>
  C8. For every buffer and every line number \<open>L\<close> from 1 to one more than the number
  of newlines, \<open>byteToLine (lineToByte L) = L\<close>. The range covers every line number
  from 1 to the line count, which is at most one more than the number of newlines.
\<close>

theorem line_byte_roundtrip:
  "(1 \<le> L \<and> L \<le> int (count_list data newline) + 1 \<longrightarrow>
      byteToLine data (lineToByte data L) = L) \<and>
   int (lineCount data) \<le> int (count_list data newline) + 1"
proof -
  have "byteToLine data (lineToByte data L) = L"
    if L: "1 \<le> L" "L \<le> int (count_list data newline) + 1"
  proof (cases "L = 1")
    case True
    then show ?thesis by (simp add: lineToByte_def byteToLine_count)
  next
    case False
    with L have L2: "2 \<le> L" and le: "L - 1 \<le> int (count_list data newline)" by simp_all
    let ?r = "lineToByte data L"
    from lineToByte_in_range [OF L2 le]
    have r: "0 < ?r" "?r \<le> int (length data)" "data ! nat (?r - 1) = newline"
      "int (count_list (take (nat (?r - 1)) data) newline) = L - 2" by auto
    from r(1,2) have k: "nat (?r - 1) < length data" "nat ?r = Suc (nat (?r - 1))" by linarith+
    from count_upto_newline [OF k(1) r(3)] k(2) r(4)
    have "int (count_list (take (nat ?r) data) newline) = L - 1" by simp
    with r(1) show ?thesis by (simp add: byteToLine_count)
  qed
  then show ?thesis by (simp add: lineCount_def)
qed

theorem line_byte_roundtrip_witness:
  "byteToLine [CHR ''a'', newline, CHR ''b'', newline, CHR ''c''] 
     (lineToByte [CHR ''a'', newline, CHR ''b'', newline, CHR ''c''] 3) = 3 \<and>
   lineCount [CHR ''a'', newline, CHR ''b'', newline, CHR ''c''] = 3"
  using line_byte_roundtrip [of 3 "[CHR ''a'', newline, CHR ''b'', newline, CHR ''c'']"]
  by (simp add: lineCount_def)

section \<open>Stepping by runes\<close>

lemma first_cases:
  "first b \<ge> 0xF0 \<or> first b mod 8 = 2 \<or> first b mod 8 = 3 \<or> first b mod 8 = 4"
  by (simp add: first_def Let_def)

lemma DecodeRuneSize_bounds:
  assumes "bs \<noteq> []"
  shows "1 \<le> DecodeRuneSize bs \<and> DecodeRuneSize bs \<le> length bs"
proof -
  from assms obtain p0 ps where bs: "bs = p0 # ps" by (cases bs) auto
  from first_cases [of p0] show ?thesis
    unfolding bs by (auto simp: Let_def Suc_le_eq)
qed

lemma runeSizes_Nil: "runeSizes [] = []"
  by (simp add: runeSizes.simps)

lemma runeSizes_Cons:
  "bs \<noteq> [] \<Longrightarrow> runeSizes bs = DecodeRuneSize bs # runeSizes (drop (DecodeRuneSize bs) bs)"
  by (subst runeSizes.simps) simp

lemma sum_list_runeSizes: "sum_list (runeSizes bs) = length bs"
proof (induction bs rule: runeSizes.induct)
  case (1 bs)
  show ?case
  proof (cases "bs = []")
    case True
    then show ?thesis by (simp add: runeSizes_Nil)
  next
    case False
    with "1.IH" DecodeRuneSize_bounds [OF False] show ?thesis
      by (simp add: runeSizes_Cons)
  qed
qed

lemma sum_list_take_le: "sum_list (take k (xs :: nat list)) \<le> sum_list xs"
proof -
  have "sum_list xs = sum_list (take k xs) + sum_list (drop k xs)"
    by (metis append_take_drop_id sum_list_append)
  then show ?thesis by simp
qed

lemma runeSizes_drop_sum:
  "k \<le> length (runeSizes bs) \<Longrightarrow>
     runeSizes (drop (sum_list (take k (runeSizes bs))) bs) = drop k (runeSizes bs)"
proof (induction k arbitrary: bs)
  case 0
  then show ?case by simp
next
  case (Suc k)
  then have ne: "bs \<noteq> []" by (auto simp: runeSizes_Nil)
  let ?s = "DecodeRuneSize bs"
  let ?R = "runeSizes (drop ?s bs)"
  from Suc.prems have k: "k \<le> length ?R" by (simp add: runeSizes_Cons [OF ne])
  have "drop (sum_list (take (Suc k) (runeSizes bs))) bs = drop (sum_list (take k ?R)) (drop ?s bs)"
    by (simp add: runeSizes_Cons [OF ne] add.commute)
  with Suc.IH [OF k] show ?case by (simp add: runeSizes_Cons [OF ne])
qed

lemma runeFwd_spec:
  assumes "0 \<le> pos" and "pos \<le> int (length data)" and "0 \<le> n"
  shows "runeFwd data pos n =
           Ok (pos + int (sum_list (take (nat n) (runeSizes (drop (nat pos) data)))),
               n - int (min (nat n) (length (runeSizes (drop (nat pos) data)))))"
  using assms
proof (induction data pos n rule: runeFwd.induct)
  case (1 data pos n)
  show ?case
  proof (cases "n > 0 \<and> pos < int (length data)")
    case False
    with "1.prems" have "n = 0 \<or> drop (nat pos) data = []" by auto
    with False show ?thesis
      by (subst runeFwd.simps) (auto simp: runeSizes_Nil)
  next
    case True
    let ?bs = "drop (nat pos) data"
    let ?s = "DecodeRuneSize ?bs"
    let ?R = "runeSizes (drop ?s ?bs)"
    from True "1.prems" have "nat pos < length data" by linarith
    then have ne: "?bs \<noteq> []" by simp
    from DecodeRuneSize_bounds [OF ne] "1.prems" True
    have s: "1 \<le> ?s" "pos + int ?s \<le> int (length data)" by auto
    have dr: "drop (nat (pos + int ?s)) data = drop ?s ?bs"
      using "1.prems"(1) by (simp add: nat_add_distrib add.commute)
    from True have nn: "nat n = Suc (nat (n - 1))" by linarith
    have step: "runeFwd data pos n = runeFwd data (pos + int ?s) (n - 1)"
      using True "1.prems"(1) by (subst runeFwd.simps) simp
    from "1.IH" [OF True] "1.prems"(1) s True
    have "runeFwd data (pos + int ?s) (n - 1) =
            Ok (pos + int ?s + int (sum_list (take (nat (n - 1)) ?R)),
                n - 1 - int (min (nat (n - 1)) (length ?R)))"
      by (simp add: dr)
    with step show ?thesis
      by (simp add: runeSizes_Cons [OF ne] nn)
  qed
qed

lemma runeBoundaries_iff:
  "p \<in> set (runeBoundaries bs) \<longleftrightarrow> (\<exists>k \<le> length (runeSizes bs). p = sum_list (take k (runeSizes bs)))"
  by (auto simp: runeBoundaries_def image_iff less_Suc_eq_le Bex_def simp del: upt_Suc)

lemma forward_rune_ok:
  assumes "0 \<le> hi" and "hi \<le> int (length data)" and "0 \<le> n"
    and "nat n \<le> length (runeSizes (drop (nat hi) data))"
  shows "addrNumber data lo hi (CHR ''+'') n True =
           Ok (hi + int (sum_list (take (nat n) (runeSizes (drop (nat hi) data)))),
               hi + int (sum_list (take (nat n) (runeSizes (drop (nat hi) data)))))"
  using assms by (simp add: addrNumber_def addrForward_def runeFwd_spec)

lemma forward_rune_err:
  assumes "0 \<le> hi" and "hi \<le> int (length data)" and "0 \<le> n"
    and "length (runeSizes (drop (nat hi) data)) < nat n"
  shows "addrNumber data lo hi (CHR ''+'') n True = Err AddressOutOfRange"
  using assms by (simp add: addrNumber_def addrForward_def runeFwd_spec)

lemma forward_rune_boundary:
  assumes "0 \<le> hi" and "hi \<le> int (length data)" and "0 \<le> n"
    and ok: "addrNumber data lo hi (CHR ''+'') n True = Ok (p, q)"
  shows "q = p \<and> hi \<le> p \<and> p \<le> int (length data) \<and>
         (nat hi \<in> set (runeBoundaries data) \<longrightarrow> nat p \<in> set (runeBoundaries data))"
proof -
  let ?S = "runeSizes (drop (nat hi) data)"
  have le: "nat n \<le> length ?S"
  proof (rule ccontr)
    assume "\<not> nat n \<le> length ?S"
    with forward_rune_err [OF assms(1-3), of lo] ok show False by simp
  qed
  from forward_rune_ok [OF assms(1-3) le, of lo] ok
  have p: "p = hi + int (sum_list (take (nat n) ?S))" and q: "q = p" by simp_all
  have "sum_list (take (nat n) ?S) \<le> length (drop (nat hi) data)"
    using sum_list_take_le [of "nat n" ?S] by (simp only: sum_list_runeSizes)
  with p assms(1,2) have rng: "hi \<le> p" "p \<le> int (length data)" by auto
  have "nat p \<in> set (runeBoundaries data)" if "nat hi \<in> set (runeBoundaries data)"
  proof -
    from that obtain k where k: "k \<le> length (runeSizes data)"
      "nat hi = sum_list (take k (runeSizes data))"
      by (auto simp: runeBoundaries_iff)
    from runeSizes_drop_sum [OF k(1)] k(2) have S: "?S = drop k (runeSizes data)" by simp
    with le k(1) have kn: "k + nat n \<le> length (runeSizes data)" by simp
    have "nat p = nat hi + sum_list (take (nat n) ?S)"
      using p assms(1) by (simp add: nat_add_distrib)
    also have "\<dots> = sum_list (take k (runeSizes data)) +
        sum_list (take (nat n) (drop k (runeSizes data)))"
      by (subst S) (simp only: k(2))
    also have "\<dots> = sum_list (take (k + nat n) (runeSizes data))"
      by (simp add: take_add)
    finally show ?thesis using kn by (auto simp: runeBoundaries_iff)
  qed
  with q rng show ?thesis by simp
qed

lemma forward_rune_first:
  assumes "DecodeRuneSize data = k" and "0 < k"
  shows "addrNumber data lo 0 (CHR ''+'') 1 True = Ok (int k, int k)"
proof -
  from assms have ne: "data \<noteq> []" by auto
  have "nat 1 \<le> length (runeSizes (drop (nat 0) data))"
    by (simp add: runeSizes_Cons [OF ne])
  from forward_rune_ok [OF _ _ _ this, of lo]
  have "addrNumber data lo 0 (CHR ''+'') 1 True =
          Ok (0 + int (sum_list (take (nat 1) (runeSizes (drop (nat 0) data)))),
              0 + int (sum_list (take (nat 1) (runeSizes (drop (nat 0) data)))))"
    by simp
  also have "take (nat 1) (runeSizes (drop (nat 0) data)) = [k]"
    using assms(1) by (simp add: runeSizes_Cons [OF ne])
  finally show ?thesis by simp
qed

lemma forward_rune_three:
  "DecodeRuneSize data = 3 \<Longrightarrow> addrNumber data lo 0 (CHR ''+'') 1 True = Ok (3, 3)"
  using forward_rune_first [of data 3 lo] by simp

text \<open>
  C7. For every buffer, every offset \<open>0 \<le> hi \<le> len(buffer)\<close> and every count
  \<open>n \<ge> 0\<close>, the forward rune-mode step \<^verbatim>\<open>+#n\<close> decodes \<open>n\<close> whole runes from \<open>hi\<close>:
  when fewer than \<open>n\<close> runes remain it signals \<open>AddressOutOfRange\<close>; otherwise it returns
  the zero-width range at \<open>hi\<close> plus the sizes of the first \<open>n\<close> runes decoded from \<open>hi\<close>.
  The position returned lies in the buffer, and it is a rune boundary of the buffer
  whenever \<open>hi\<close> is one: it is never inside a multi-byte character. On a buffer that
  begins with a 3-byte character, \<^verbatim>\<open>+#1\<close> from offset 0 lands at offset 3.
\<close>

theorem forward_rune_step:
  assumes "0 \<le> hi" and "hi \<le> int (length data)" and "0 \<le> n"
  shows "(nat n \<le> length (runeSizes (drop (nat hi) data)) \<longrightarrow>
            addrNumber data lo hi (CHR ''+'') n True =
              Ok (hi + int (sum_list (take (nat n) (runeSizes (drop (nat hi) data)))),
                  hi + int (sum_list (take (nat n) (runeSizes (drop (nat hi) data)))))) \<and>
         (length (runeSizes (drop (nat hi) data)) < nat n \<longrightarrow>
            addrNumber data lo hi (CHR ''+'') n True = Err AddressOutOfRange) \<and>
         (\<forall>p q. addrNumber data lo hi (CHR ''+'') n True = Ok (p, q) \<longrightarrow>
            q = p \<and> hi \<le> p \<and> p \<le> int (length data) \<and>
            (nat hi \<in> set (runeBoundaries data) \<longrightarrow> nat p \<in> set (runeBoundaries data))) \<and>
         (DecodeRuneSize data = 3 \<longrightarrow> addrNumber data lo 0 (CHR ''+'') 1 True = Ok (3, 3))"
  using forward_rune_ok [OF assms, of lo] forward_rune_err [OF assms, of lo]
    forward_rune_boundary [OF assms, of lo] forward_rune_three [of data lo]
  by blast

lemma euro_sizes: "runeSizes [CHR 0xE2, CHR 0x82, CHR 0xAC, CHR ''a'', CHR ''b''] = [3, 1, 1]"
  by (simp add: runeSizes.simps first_def acceptRanges_def contByte_def Let_def)

theorem forward_rune_step_witness:
  "DecodeRuneSize [CHR 0xE2, CHR 0x82, CHR 0xAC, CHR ''a'', CHR ''b''] = 3 \<and>
   runeSizes [CHR 0xE2, CHR 0x82, CHR 0xAC, CHR ''a'', CHR ''b''] = [3, 1, 1] \<and>
   runeBoundaries [CHR 0xE2, CHR 0x82, CHR 0xAC, CHR ''a'', CHR ''b''] = [0, 3, 4, 5] \<and>
   addrNumber [CHR 0xE2, CHR 0x82, CHR 0xAC, CHR ''a'', CHR ''b''] 0 0 (CHR ''+'') 1 True = Ok (3, 3) \<and>
   addrNumber [CHR 0xE2, CHR 0x82, CHR 0xAC, CHR ''a'', CHR ''b''] 0 3 (CHR ''+'') 2 True = Ok (5, 5) \<and>
   addrNumber [CHR 0xE2, CHR 0x82, CHR 0xAC, CHR ''a'', CHR ''b''] 0 3 (CHR ''+'') 3 True = Err AddressOutOfRange"
proof -
  let ?d = "[CHR 0xE2, CHR 0x82, CHR 0xAC, CHR ''a'', CHR ''b'']"
  have s: "runeSizes ?d = [3, 1, 1]" by (rule euro_sizes)
  have s3: "runeSizes (drop 3 ?d) = [1, 1]"
    by (simp add: runeSizes.simps first_def Let_def)
  have b: "runeBoundaries ?d = [0, 3, 4, 5]"
    by (simp add: runeBoundaries_def s upt_rec)
  from forward_rune_step [of 0 ?d 1 0] s
  have 1: "addrNumber ?d 0 0 (CHR ''+'') 1 True = Ok (3, 3)" by simp
  from forward_rune_step [of 3 ?d 2 0] s3
  have 2: "addrNumber ?d 0 3 (CHR ''+'') 2 True = Ok (5, 5)" by simp
  from forward_rune_step [of 3 ?d 3 0] s3
  have 3: "addrNumber ?d 0 3 (CHR ''+'') 3 True = Err AddressOutOfRange" by simp
  have d: "DecodeRuneSize ?d = 3"
    by (simp add: first_def acceptRanges_def contByte_def Let_def)
  from d s b 1 2 3 show ?thesis by simp
qed

section \<open>Stepping forward by lines\<close>

lemma snapFwd_nextLineStart:
  assumes "0 < hi" and "hi \<le> int (length data)"
  shows "snapFwd data hi = int (nextLineStart data (nat hi))"
  using assms
proof (induction data hi rule: snapFwd.induct)
  case (1 data hi)
  let ?k = "nat (hi - 1)"
  from "1.prems" have k: "?k < length data" "nat hi = Suc ?k" by linarith+
  have dr: "drop ?k data = data ! ?k # drop (nat hi) data"
    using k by (simp add: Cons_nth_drop_Suc)
  show ?case
  proof (cases "hi < int (length data) \<and> data ! ?k \<noteq> newline")
    case True
    then have h1: "0 < hi + 1" "hi + 1 \<le> int (length data)" using "1.prems" by simp_all
    have n1: "nat (hi + 1) = Suc (nat hi)" "nat (hi + 1 - 1) = nat hi" using "1.prems" by linarith+
    have "snapFwd data hi = snapFwd data (hi + 1)"
      using True by (subst snapFwd.simps) simp
    also have "\<dots> = int (nextLineStart data (nat (hi + 1)))"
      using "1.IH" [OF True h1] .
    also have "nextLineStart data (nat (hi + 1)) = nextLineStart data (nat hi)"
      using True k by (simp add: nextLineStart_def dr n1)
    finally show ?thesis .
  next
    case False
    then have stop: "snapFwd data hi = hi" by (subst snapFwd.simps) auto
    from False consider "hi = int (length data)" | "data ! ?k = newline"
      using "1.prems" by fastforce
    then have "int (nextLineStart data (nat hi)) = hi"
    proof cases
      case 1
      then have "nat hi = length data" by simp
      with 1 "1.prems" show ?thesis by (auto simp: nextLineStart_def)
    next
      case 2
      with "1.prems" k show ?thesis by (simp add: nextLineStart_def dr)
    qed
    with stop show ?thesis by simp
  qed
qed

lemma nextLineStart_range: "hi \<le> length data \<Longrightarrow> hi \<le> nextLineStart data hi \<and> nextLineStart data hi \<le> length data"
  by (simp add: nextLineStart_def)

lemma slice_step:
  assumes "0 \<le> hi" and "hi < int (length data)" and "hi < hi'"
  shows "take (nat (hi' - hi)) (drop (nat hi) data) =
           data ! nat hi # take (nat (hi' - (hi + 1))) (drop (nat (hi + 1)) data)"
proof -
  from assms have a: "nat hi < length data" "nat (hi + 1) = Suc (nat hi)"
    "nat (hi' - hi) = Suc (nat (hi' - (hi + 1)))" by linarith+
  then show ?thesis by (simp add: Cons_nth_drop_Suc [symmetric])
qed

lemma drop_step:
  assumes "0 \<le> hi" and "hi < int (length data)"
  shows "drop (nat hi) data = data ! nat hi # drop (nat (hi + 1)) data"
proof -
  from assms have a: "nat hi < length data" "nat (hi + 1) = Suc (nat hi)" by linarith+
  then show ?thesis by (simp add: Cons_nth_drop_Suc)
qed

lemma lineFwd_spec:
  assumes "0 \<le> hi" and "hi \<le> int (length data)" and "1 \<le> n"
  shows "(int (count_list (drop (nat hi) data) newline) < n \<longrightarrow>
            lineFwd data lo hi n = Err AddressOutOfRange) \<and>
         (n \<le> int (count_list (drop (nat hi) data) newline) \<longrightarrow>
            (\<exists>lo' hi'. lineFwd data lo hi n = Ok (lo', hi') \<and> lineFwdPost data lo hi n lo' hi'))"
  using assms
proof (induction data lo hi n rule: lineFwd.induct)
  case (1 data lo hi n)
  show ?case
  proof (cases "hi < int (length data)")
    case False
    with "1.prems" have "drop (nat hi) data = []" by simp
    with False "1.prems" show ?thesis by (subst lineFwd.simps) simp
  next
    case True
    note lt = this
    from "1.prems" have h0: "\<not> hi < 0" by simp
    from "1.prems" lt have h1: "0 \<le> hi + 1" "hi + 1 \<le> int (length data)" by simp_all
    note dr = drop_step [OF "1.prems"(1) lt]
    show ?thesis
    proof (cases "data ! nat hi = newline")
      case False
      note nn = this
      have step: "lineFwd data lo hi n = lineFwd data lo (hi + 1) n"
        using lt h0 nn by (subst lineFwd.simps) simp
      have cnt: "count_list (drop (nat hi) data) newline = count_list (drop (nat (hi + 1)) data) newline"
        using nn by (subst dr) simp
      note ih = "1.IH"(1) [OF lt h0 nn h1 "1.prems"(3)]
      have post: "lineFwdPost data lo hi n lo' hi'" if p: "lineFwdPost data lo (hi + 1) n lo' hi'" for lo' hi'
      proof -
        from p have lt': "hi < hi'" by (simp add: lineFwdPost_def)
        have q: "(\<forall>i. hi \<le> i \<and> i < hi' - 1 \<longrightarrow> data ! nat i \<noteq> newline)"
          if "\<forall>i. hi + 1 \<le> i \<and> i < hi' - 1 \<longrightarrow> data ! nat i \<noteq> newline"
        proof (intro allI impI)
          fix i assume i: "hi \<le> i \<and> i < hi' - 1"
          show "data ! nat i \<noteq> newline"
          proof (cases "i = hi")
            case True
            with nn show ?thesis by simp
          next
            case False
            with i have "hi + 1 \<le> i \<and> i < hi' - 1" by simp
            with that show ?thesis by blast
          qed
        qed
        from p nn q show ?thesis
          unfolding lineFwdPost_def slice_step [OF "1.prems"(1) lt lt']
          by (simp split: if_splits)
      qed
      from ih post show ?thesis unfolding step cnt by blast
    next
      case True
      note nl = this
      have cnt: "int (count_list (drop (nat hi) data) newline) = int (count_list (drop (nat (hi + 1)) data) newline) + 1"
        using nl by (subst dr) simp
      consider "n = 2" | "n = 1" | "3 \<le> n" using "1.prems"(3) by linarith
      then show ?thesis
      proof cases
        case 1
        have step: "lineFwd data lo hi n = lineFwd data (hi + 1) (hi + 1) 1"
          using lt h0 nl 1 by (subst lineFwd.simps) simp
        have c1: "n - 1 = 1" using 1 by simp
        from "1.IH"(2) [OF lt h0 _ c1 h1] nl 1
        have ih: "(int (count_list (drop (nat (hi + 1)) data) newline) < 1 \<longrightarrow>
            lineFwd data (hi + 1) (hi + 1) 1 = Err AddressOutOfRange) \<and>
         (1 \<le> int (count_list (drop (nat (hi + 1)) data) newline) \<longrightarrow>
            (\<exists>lo' hi'. lineFwd data (hi + 1) (hi + 1) 1 = Ok (lo', hi') \<and>
               lineFwdPost data (hi + 1) (hi + 1) 1 lo' hi'))"
          by simp
        have post: "lineFwdPost data lo hi n lo' hi'"
          if p: "lineFwdPost data (hi + 1) (hi + 1) 1 lo' hi'" for lo' hi'
        proof -
          from p have lt': "hi < hi'" by (simp add: lineFwdPost_def)
          from p nl 1 show ?thesis
            unfolding lineFwdPost_def slice_step [OF "1.prems"(1) lt lt']
            by auto
        qed
        from ih post 1 show ?thesis unfolding step cnt by auto
      next
        case 2
        have step: "lineFwd data lo hi n = Ok (lo, hi + 1)"
          using lt h0 nl 2 by (subst lineFwd.simps) simp
        have "lineFwdPost data lo hi n lo (hi + 1)"
          using 2 nl lt "1.prems"(1) unfolding lineFwdPost_def
          by (auto simp: dr)
        with step cnt 2 show ?thesis by simp
      next
        case 3
        have step: "lineFwd data lo hi n = lineFwd data lo (hi + 1) (n - 1)"
          using lt h0 nl 3 by (subst lineFwd.simps) simp
        have c1: "n - 1 \<noteq> 1" "n - 1 \<noteq> 0" "1 \<le> n - 1" using 3 by simp_all
        from "1.IH"(3) [OF lt h0 _ c1(1) c1(2) h1 c1(3)] nl
        have ih: "(int (count_list (drop (nat (hi + 1)) data) newline) < n - 1 \<longrightarrow>
            lineFwd data lo (hi + 1) (n - 1) = Err AddressOutOfRange) \<and>
         (n - 1 \<le> int (count_list (drop (nat (hi + 1)) data) newline) \<longrightarrow>
            (\<exists>lo' hi'. lineFwd data lo (hi + 1) (n - 1) = Ok (lo', hi') \<and>
               lineFwdPost data lo (hi + 1) (n - 1) lo' hi'))"
          by simp
        have post: "lineFwdPost data lo hi n lo' hi'"
          if p: "lineFwdPost data lo (hi + 1) (n - 1) lo' hi'" for lo' hi'
        proof -
          from p have lt': "hi < hi'" by (simp add: lineFwdPost_def)
          from p nl 3 c1 show ?thesis
            unfolding lineFwdPost_def slice_step [OF "1.prems"(1) lt lt']
            by auto
        qed
        from ih post show ?thesis unfolding step cnt by auto
      qed
    qed
  qed
qed

lemma addrNumber_nodir:
  "addrNumber data lo hi nodir n charOffset = addrNumber data 0 0 (CHR ''+'') n charOffset"
  by (simp add: addrNumber_def)

lemma lineCount_ge: "count_list bs newline \<le> lineCount bs"
  by (simp add: lineCount_def)

text \<open>
  C4 (as amended). For every buffer, every starting range with \<open>0 \<le> hi \<le> len(buffer)\<close>
  and every count \<open>n \<ge> 1\<close>, let \<open>p\<close> be \<open>hi\<close> snapped forward to the start of a line.
  If at least \<open>n\<close> newline bytes lie at or after \<open>p\<close>, the forward line-mode step
  succeeds, and returns a range whose \<open>hi'\<close> is just past the \<open>n\<close>-th of them, the
  final newline of the selected line, and whose \<open>lo'\<close> is the start of that line. If
  fewer than \<open>n\<close> lines remain at or after \<open>p\<close>, an unterminated last line counted as
  a line, it signals \<open>AddressOutOfRange\<close>.
\<close>

theorem forward_line_step:
  assumes "0 \<le> hi" and "hi \<le> int (length data)" and "1 \<le> n"
    and "p = int (nextLineStart data (nat hi))"
  shows "(n \<le> int (count_list (drop (nat p) data) newline) \<longrightarrow>
           (\<exists>lo' hi'. addrNumber data lo hi (CHR ''+'') n False = Ok (lo', hi') \<and>
              p \<le> lo' \<and> lo' < hi' \<and> hi' \<le> int (length data) \<and>
              data ! nat (hi' - 1) = newline \<and>
              int (count_list (take (nat (hi' - p)) (drop (nat p) data)) newline) = n \<and>
              (lo' = p \<or> data ! nat (lo' - 1) = newline) \<and>
              (\<forall>i. lo' \<le> i \<and> i < hi' - 1 \<longrightarrow> data ! nat i \<noteq> newline))) \<and>
         (int (lineCount (drop (nat p) data)) < n \<longrightarrow>
            addrNumber data lo hi (CHR ''+'') n False = Err AddressOutOfRange) \<and>
         hi \<le> p \<and> p \<le> int (length data)"
proof -
  have snap: "(if hi > 0 then snapFwd data hi else hi) = p"
    using assms snapFwd_nextLineStart [of hi data] by (auto simp: nextLineStart_def)
  from assms(1,2) have "nat hi \<le> length data" by linarith
  from nextLineStart_range [OF this] assms(1,4)
  have rng: "hi \<le> p" "p \<le> int (length data)" by linarith+
  with assms(1) have p0: "0 \<le> p" by simp
  have run: "addrNumber data lo hi (CHR ''+'') n False = lineFwd data p p n"
    using assms(3) snap by (simp add: addrNumber_def addrForward_def Let_def)
  note spec = lineFwd_spec [OF p0 rng(2) assms(3), of p]
  have ok: "\<exists>lo' hi'. addrNumber data lo hi (CHR ''+'') n False = Ok (lo', hi') \<and>
              p \<le> lo' \<and> lo' < hi' \<and> hi' \<le> int (length data) \<and>
              data ! nat (hi' - 1) = newline \<and>
              int (count_list (take (nat (hi' - p)) (drop (nat p) data)) newline) = n \<and>
              (lo' = p \<or> data ! nat (lo' - 1) = newline) \<and>
              (\<forall>i. lo' \<le> i \<and> i < hi' - 1 \<longrightarrow> data ! nat i \<noteq> newline)"
    if "n \<le> int (count_list (drop (nat p) data) newline)"
  proof -
    from spec that obtain lo' hi' where r: "lineFwd data p p n = Ok (lo', hi')"
      and post: "lineFwdPost data p p n lo' hi'" by blast
    from post have "p \<le> lo' \<and> lo' < hi' \<and> hi' \<le> int (length data) \<and>
              data ! nat (hi' - 1) = newline \<and>
              int (count_list (take (nat (hi' - p)) (drop (nat p) data)) newline) = n \<and>
              (lo' = p \<or> data ! nat (lo' - 1) = newline) \<and>
              (\<forall>i. lo' \<le> i \<and> i < hi' - 1 \<longrightarrow> data ! nat i \<noteq> newline)"
      unfolding lineFwdPost_def by (cases "n = 1") auto
    with r run show ?thesis by simp
  qed
  have err: "addrNumber data lo hi (CHR ''+'') n False = Err AddressOutOfRange"
    if "int (lineCount (drop (nat p) data)) < n"
  proof -
    from that lineCount_ge [of "drop (nat p) data"]
    have "int (count_list (drop (nat p) data) newline) < n" by linarith
    with spec run show ?thesis by simp
  qed
  from ok err rng show ?thesis by blast
qed

theorem forward_line_step_witness:
  "nextLineStart [CHR ''a'', newline, CHR ''b'', newline, CHR ''c''] 1 = 2 \<and>
   addrNumber [CHR ''a'', newline, CHR ''b'', newline, CHR ''c''] 0 1 (CHR ''+'') 1 False = Ok (2, 4) \<and>
   lineCount (drop 2 [CHR ''a'', newline, CHR ''b'', newline, CHR ''c'']) = 2 \<and>
   addrNumber [CHR ''a'', newline, CHR ''b'', newline, CHR ''c''] 0 1 (CHR ''+'') 3 False
     = Err AddressOutOfRange"
proof -
  let ?d = "[CHR ''a'', newline, CHR ''b'', newline, CHR ''c'']"
  have p: "nextLineStart ?d 1 = 2" by (simp add: nextLineStart_def)
  have c: "lineCount (drop 2 ?d) = 2" by (simp add: lineCount_def)
  have ok: "addrNumber ?d 0 1 (CHR ''+'') 1 False = Ok (2, 4)"
    by (simp add: addrNumber_def addrForward_def snapFwd.simps lineFwd.simps)
  from forward_line_step [of 1 ?d 3 2 0] p c
  have "addrNumber ?d 0 1 (CHR ''+'') 3 False = Err AddressOutOfRange" by simp
  with p c ok show ?thesis by simp
qed

text \<open>
  The claim as first stated fails: the step does not succeed for every count. On the
  buffer \<^verbatim>\<open>a\n\<close>, which has one line, count 2 signals \<open>AddressOutOfRange\<close>; so does
  count 2 on \<^verbatim>\<open>a\nb\<close>, whose second line is unterminated.
\<close>

theorem forward_line_step_out_of_range:
  "addrNumber [CHR ''a'', newline] 0 0 (CHR ''+'') 2 False = Err AddressOutOfRange \<and>
   addrNumber [CHR ''a'', newline, CHR ''b''] 0 0 (CHR ''+'') 2 False = Err AddressOutOfRange"
  by (simp add: addrNumber_def addrForward_def lineFwd.simps)

section \<open>The resolved range lies in the buffer\<close>

lemma runeFwd_range:
  assumes "0 \<le> pos" and "pos \<le> int (length data)" and "runeFwd data pos n = Ok (p, m)"
  shows "pos \<le> p \<and> p \<le> int (length data)"
proof (cases "0 \<le> n")
  case True
  have "sum_list (take (nat n) (runeSizes (drop (nat pos) data))) \<le> length (drop (nat pos) data)"
    using sum_list_take_le [of "nat n" "runeSizes (drop (nat pos) data)"]
    by (simp only: sum_list_runeSizes)
  with runeFwd_spec [OF assms(1,2) True] assms show ?thesis by auto
next
  case False
  with assms(3) have "p = pos" by (subst (asm) runeFwd.simps) simp
  with assms show ?thesis by simp
qed

lemma snapFwd_range:
  assumes "0 < hi" and "hi \<le> int (length data)"
  shows "hi \<le> snapFwd data hi \<and> snapFwd data hi \<le> int (length data)"
proof -
  from assms have "nat hi \<le> length data" by linarith
  from nextLineStart_range [OF this] snapFwd_nextLineStart [OF assms] assms(1)
  show ?thesis by linarith
qed

lemma lineFwd_range:
  assumes "0 \<le> lo" and "lo \<le> hi" and "hi \<le> int (length data)"
    and "lineFwd data lo hi n = Ok (lo', hi')"
  shows "0 \<le> lo' \<and> lo' \<le> hi' \<and> hi' \<le> int (length data)"
  using assms
proof (induction data lo hi n rule: lineFwd.induct)
  case (1 data lo hi n)
  from "1.prems"(4) have lt: "hi < int (length data)"
    by (subst (asm) lineFwd.simps) (simp split: if_splits)
  from "1.prems" have h0: "\<not> hi < 0" by simp
  show ?case
  proof (cases "data ! nat hi = newline")
    case False
    with "1.prems"(4) lt h0 have "lineFwd data lo (hi + 1) n = Ok (lo', hi')"
      by (subst (asm) lineFwd.simps) simp
    from "1.IH"(1) [OF lt h0 False _ _ _ this] "1.prems" lt show ?thesis by simp
  next
    case True
    note nl = this
    consider "n - 1 = 1" | "n - 1 \<noteq> 1" "n - 1 = 0" | "n - 1 \<noteq> 1" "n - 1 \<noteq> 0" by blast
    then show ?thesis
    proof cases
      case 1
      with "1.prems"(4) lt h0 nl have "lineFwd data (hi + 1) (hi + 1) (n - 1) = Ok (lo', hi')"
        by (subst (asm) lineFwd.simps) simp
      from "1.IH"(2) [OF lt h0 _ 1 _ _ _ this] nl "1.prems" lt show ?thesis by simp
    next
      case 2
      with "1.prems"(4) lt h0 nl have "lo' = lo" "hi' = hi + 1"
        by (subst (asm) lineFwd.simps, simp)+
      with "1.prems" lt show ?thesis by simp
    next
      case 3
      with "1.prems"(4) lt h0 nl have "lineFwd data lo (hi + 1) (n - 1) = Ok (lo', hi')"
        by (subst (asm) lineFwd.simps) simp
      from "1.IH"(3) [OF lt h0 _ 3 _ _ _ this] nl "1.prems" lt show ?thesis by simp
    qed
  qed
qed

lemma addrForward_range:
  assumes "0 \<le> hi" and "hi \<le> int (length data)"
    and "addrForward data lo hi n charOffset = Ok (lo', hi')"
  shows "0 \<le> lo' \<and> lo' \<le> hi' \<and> hi' \<le> int (length data)"
proof (cases charOffset)
  case True
  with assms(3) obtain m where r: "runeFwd data hi n = Ok (lo', m)" and e: "hi' = lo'"
    by (auto simp: addrForward_def split: result.splits if_splits)
  from runeFwd_range [OF assms(1,2) r] e assms(1) show ?thesis by simp
next
  case False
  let ?p = "if hi > 0 then snapFwd data hi else hi"
  from assms(1,2) snapFwd_range [of hi data] have p: "0 \<le> ?p" "?p \<le> int (length data)"
    by auto
  show ?thesis
  proof (cases "n = 0")
    case True
    with False assms(3) p show ?thesis by (auto simp: addrForward_def Let_def)
  next
    case n: False
    with False assms(3) have "lineFwd data ?p ?p n = Ok (lo', hi')"
      by (simp add: addrForward_def Let_def)
    from lineFwd_range [OF p(1) _ p(2) this] show ?thesis by simp
  qed
qed

lemma runeBwd_range:
  assumes "0 \<le> pos" and "runeBwd data pos n = Ok (p, q)"
  shows "0 \<le> p \<and> q = p \<and> p \<le> pos"
  using assms
proof (induction data pos n rule: runeBwd.induct)
  case (1 data pos n)
  show ?case
  proof (cases "pos > 0 \<and> n > 0")
    case False
    with "1.prems" show ?thesis
      by (subst (asm) runeBwd.simps) (auto split: if_splits)
  next
    case True
    with "1.prems"(2) have lt: "\<not> pos \<ge> int (length data)"
      by (subst (asm) runeBwd.simps) (simp split: if_splits)
    from True have p1: "0 \<le> pos - 1" by simp
    show ?thesis
    proof (cases "(of_char (data ! nat pos) :: 8 word) AND 0xC0 \<noteq> 0x80")
      case c: True
      with "1.prems"(2) True lt have "runeBwd data (pos - 1) (n - 1) = Ok (p, q)"
        by (subst (asm) runeBwd.simps) simp
      from "1.IH"(1) [OF True lt c p1 this] show ?thesis by simp
    next
      case c: False
      with "1.prems"(2) True lt have "runeBwd data (pos - 1) n = Ok (p, q)"
        by (subst (asm) runeBwd.simps) simp
      from "1.IH"(2) [OF True lt c p1 this] show ?thesis by simp
    qed
  qed
qed

lemma snapBwd_range:
  assumes "0 \<le> lo" and "snapBwd data lo = Ok l"
  shows "0 \<le> l \<and> l \<le> lo"
  using assms
proof (induction data lo rule: snapBwd.induct)
  case (1 data lo)
  show ?case
  proof (cases "lo > 0")
    case False
    with "1.prems" show ?thesis by (subst (asm) snapBwd.simps) simp
  next
    case True
    with "1.prems"(2) have lt: "\<not> lo - 1 \<ge> int (length data)"
      by (subst (asm) snapBwd.simps) (simp split: if_splits)
    show ?thesis
    proof (cases "data ! nat (lo - 1) \<noteq> newline")
      case c: True
      with "1.prems"(2) True lt have "snapBwd data (lo - 1) = Ok l"
        by (subst (asm) snapBwd.simps) simp
      from "1.IH" [OF True lt c _ this] True show ?thesis by simp
    next
      case False
      with "1.prems" True lt show ?thesis by (subst (asm) snapBwd.simps) simp
    qed
  qed
qed

lemma lineBwd_range:
  assumes "- 1 \<le> lo" and "lo \<le> hi" and "lineBwd data lo hi n = Ok (lo', hi')"
  shows "0 \<le> lo' \<and> lo' \<le> hi' \<and> hi' \<le> hi"
  using assms
proof (induction data lo hi n rule: lineBwd.induct)
  case (1 data lo hi n)
  from "1.prems"(3) have ge: "lo \<ge> 0"
    by (subst (asm) lineBwd.simps) (simp split: if_splits)
  from "1.prems"(3) ge have nb: "\<not> (lo > 0 \<and> lo - 1 \<ge> int (length data))"
    by (subst (asm) lineBwd.simps) (simp split: if_splits)
  from ge have l1: "- 1 \<le> lo - 1" by simp
  show ?case
  proof (cases "lo > 0 \<and> data ! nat (lo - 1) \<noteq> newline")
    case True
    with "1.prems"(3) ge nb have "lineBwd data (lo - 1) hi n = Ok (lo', hi')"
      by (subst (asm) lineBwd.simps) simp
    from "1.IH"(1) [OF ge nb True l1 _ this] "1.prems"(2) show ?thesis by simp
  next
    case False
    note c = this
    consider "n - 1 = 1" | "n - 1 \<noteq> 1" "n - 1 = 0" | "n - 1 \<noteq> 1" "n - 1 \<noteq> 0" by blast
    then show ?thesis
    proof cases
      case 1
      with "1.prems"(3) ge nb c have "lineBwd data (lo - 1) lo (n - 1) = Ok (lo', hi')"
        by (subst (asm) lineBwd.simps) auto
      from "1.IH"(2) [OF ge nb c 1 l1 _ this] "1.prems"(2) show ?thesis by simp
    next
      case 2
      with "1.prems"(3) ge nb c have "lo' = lo" "hi' = hi"
        by (subst (asm) lineBwd.simps, auto)+
      with "1.prems" ge show ?thesis by simp
    next
      case 3
      with "1.prems"(3) ge nb c have "lineBwd data (lo - 1) hi (n - 1) = Ok (lo', hi')"
        by (subst (asm) lineBwd.simps) auto
      from "1.IH"(3) [OF ge nb c 3 l1 _ this] "1.prems"(2) show ?thesis by simp
    qed
  qed
qed

lemma addrBackward_range:
  assumes "0 \<le> lo" and "lo \<le> int (length data)"
    and "addrBackward data lo hi n charOffset = Ok (lo', hi')"
  shows "0 \<le> lo' \<and> lo' \<le> hi' \<and> hi' \<le> int (length data)"
proof (cases charOffset)
  case True
  with assms(3) have "runeBwd data lo n = Ok (lo', hi')" by (simp add: addrBackward_def)
  from runeBwd_range [OF assms(1) this] assms(2) show ?thesis by simp
next
  case False
  with assms(3) obtain l where l: "snapBwd data lo = Ok l"
    and r: "(if n = 0 then Ok (l, l) else lineBwd data l l n) = Ok (lo', hi')"
    by (auto simp: addrBackward_def Let_def split: result.splits)
  from snapBwd_range [OF assms(1) l] assms(2) have lr: "0 \<le> l" "l \<le> int (length data)" by auto
  show ?thesis
  proof (cases "n = 0")
    case True
    with r lr show ?thesis by simp
  next
    case False
    with r have "lineBwd data l l n = Ok (lo', hi')" by simp
    from lineBwd_range [OF _ _ this] lr show ?thesis by simp
  qed
qed

lemma addrNumber_range:
  assumes "0 \<le> lo" and "lo \<le> hi" and "hi \<le> int (length data)"
    and "addrNumber data lo hi dir n charOffset = Ok (lo', hi')"
  shows "0 \<le> lo' \<and> lo' \<le> hi' \<and> hi' \<le> int (length data)"
proof -
  from assms(4) consider
      "addrForward data 0 0 n charOffset = Ok (lo', hi')"
    | "addrForward data lo hi n charOffset = Ok (lo', hi')"
    | "addrBackward data lo hi n charOffset = Ok (lo', hi')"
    by (auto simp: addrNumber_def split: if_splits)
  then show ?thesis
  proof cases
    case 1
    from addrForward_range [OF _ _ this] show ?thesis by simp
  next
    case 2
    from addrForward_range [OF _ _ this] assms show ?thesis by simp
  next
    case 3
    from addrBackward_range [OF _ _ this] assms show ?thesis by simp
  qed
qed

lemma addrRegexp_range:
  assumes "regexp_ok rx" and "addrRegexp rx data lo hi dir pattern = Ok (lo', hi')"
  shows "0 \<le> lo' \<and> lo' \<le> hi' \<and> hi' \<le> int (length data)"
proof -
  from assms(2) obtain re where re: "rx pattern = Some re"
    and h: "0 \<le> hi" "hi \<le> int (length data)"
    by (auto simp: addrRegexp_def split: option.splits if_splits)
  from assms(1) re have ok: "\<And>bs a b. re bs = Some (a, b) \<Longrightarrow> a \<le> b \<and> b \<le> length bs"
    unfolding regexp_ok_def by blast
  show ?thesis
  proof (cases "re (drop (nat hi) data)")
    case (Some m)
    obtain a b where m: "m = (a, b)" by (cases m)
    from ok [of "drop (nat hi) data" a b] Some m have "a \<le> b" "b \<le> length data - nat hi" by simp_all
    moreover from assms(2) re h Some m have "lo' = int a + hi" "hi' = int b + hi"
      by (auto simp: addrRegexp_def split: if_splits)
    ultimately show ?thesis using h by auto
  next
    case None
    with assms(2) re h obtain a b where w: "re data = Some (a, b)" and "lo' = int a" "hi' = int b"
      by (auto simp: addrRegexp_def split: if_splits option.splits)
    with ok [OF w] show ?thesis by simp
  qed
qed

lemma addrLoop_range_aux:
  assumes rx: "regexp_ok rx"
  shows "\<forall>lo hi dir prevc charOffset lo' hi'.
           0 \<le> lo \<longrightarrow> lo \<le> hi \<longrightarrow> hi \<le> int (length data) \<longrightarrow>
           addrLoop rx data addr lo hi dir prevc charOffset = Ok (lo', hi') \<longrightarrow>
           inBuffer data lo' \<and> inBuffer data hi' \<and> (CHR '','' \<notin> set addr \<longrightarrow> lo' \<le> hi')"
proof (induction addr rule: length_induct)
  case (1 addr)
  note IH = "1.IH" [rule_format]
  show ?case
  proof (intro allI impI)
    fix lo hi dir prevc charOffset lo' hi'
    assume lo: "0 \<le> lo" and lh: "lo \<le> hi" and hi: "hi \<le> int (length data)"
      and run: "addrLoop rx data addr lo hi dir prevc charOffset = Ok (lo', hi')"
    let ?goal = "inBuffer data lo' \<and> inBuffer data hi' \<and> (CHR '','' \<notin> set addr \<longrightarrow> lo' \<le> hi')"
    show ?goal
    proof (cases addr)
      case Nil
      show ?thesis
      proof (cases "dir = nodir")
        case True
        with Nil run lo lh hi show ?thesis by (simp add: inBuffer_def)
      next
        case False
        with Nil run have "addrNumber data lo hi dir 1 charOffset = Ok (lo', hi')" by simp
        from addrNumber_range [OF lo lh hi this] show ?thesis by (simp add: inBuffer_def)
      qed
    next
      case (Cons c rest)
      have shorter: "length rest < length addr" using Cons by simp
      consider (comma) "c = CHR '',''"
        | (sign) "c = CHR ''+'' \<or> c = CHR ''-''"
        | (dollar) "c = CHR ''$''"
        | (hash) "c = CHR ''#''"
        | (digit) "c \<noteq> CHR '',''" "c \<noteq> CHR ''+''" "c \<noteq> CHR ''-''" "c \<noteq> CHR ''$''" "c \<noteq> CHR ''#''" "isDigit c"
        | (slash) "c = CHR ''/''" "\<not> isDigit c"
        | (other) "c \<noteq> CHR '',''" "c \<noteq> CHR ''+''" "c \<noteq> CHR ''-''" "c \<noteq> CHR ''$''" "c \<noteq> CHR ''#''" "\<not> isDigit c" "c \<noteq> CHR ''/''"
        by blast
      then show ?thesis
      proof cases
        case comma
        show ?thesis
        proof (cases "rest = []")
          case True
          with comma Cons run lo lh hi show ?thesis by (simp add: inBuffer_def)
        next
          case False
          with comma Cons run obtain x where
            r: "addrLoop rx data rest hi hi nodir nodir False = Ok (x, hi')" and l: "lo' = lo"
            by (auto split: result.splits)
          from lo lh have h0: "0 \<le> hi" by simp
          from IH [OF shorter h0 _ hi r] l lo lh hi comma Cons show ?thesis
            by (simp add: inBuffer_def)
        qed
      next
        case sign
        let ?pre = "if prevc = CHR ''+'' \<or> prevc = CHR ''-''
               then addrNumber data lo hi prevc 1 charOffset else Ok (lo, hi)"
        from sign Cons run obtain l h where p: "?pre = Ok (l, h)"
          and r: "addrLoop rx data rest l h c c charOffset = Ok (lo', hi')"
          by (auto split: result.splits)
        have "0 \<le> l \<and> l \<le> h \<and> h \<le> int (length data)"
        proof (cases "prevc = CHR ''+'' \<or> prevc = CHR ''-''")
          case True
          with p have "addrNumber data lo hi prevc 1 charOffset = Ok (l, h)" by simp
          from addrNumber_range [OF lo lh hi this] show ?thesis .
        next
          case False
          with p lo lh hi show ?thesis by simp
        qed
        then have "0 \<le> l" "l \<le> h" "h \<le> int (length data)" by simp_all
        from IH [OF shorter this r] Cons show ?thesis by simp
      next
        case dollar
        with Cons run have r: "addrLoop rx data rest (int (length data)) (int (length data))
          (if rest \<noteq> [] then CHR ''+'' else dir) c charOffset = Ok (lo', hi')" by simp
        from IH [OF shorter _ _ _ r] Cons show ?thesis by simp
      next
        case hash
        with Cons run have r: "addrLoop rx data rest lo hi dir c True = Ok (lo', hi')" by simp
        from IH [OF shorter lo lh hi r] Cons show ?thesis by simp
      next
        case digit
        with Cons run obtain n l h where
          p: "addrNumber data lo hi dir n charOffset = Ok (l, h)"
          and r: "addrLoop rx data (dropWhile isDigit rest) l h nodir c False = Ok (lo', hi')"
          by (auto split: result.splits)
        from addrNumber_range [OF lo lh hi p]
        have lh': "0 \<le> l" "l \<le> h" "h \<le> int (length data)" by simp_all
        have sh: "length (dropWhile isDigit rest) < length addr"
          using Cons length_dropWhile_le [of isDigit rest] by simp
        have "CHR '','' \<notin> set addr \<Longrightarrow> CHR '','' \<notin> set (dropWhile isDigit rest)"
          using Cons set_dropWhileD by fastforce
        with IH [OF sh lh' r] show ?thesis by blast
      next
        case slash
        obtain i j where e: "regexpEnd (c # rest) = (i, j)" by (cases "regexpEnd (c # rest)")
        from slash Cons run e obtain l h where
          p: "addrRegexp rx data lo hi dir (take (i - 1) rest) = Ok (l, h)"
          and r: "addrLoop rx data (drop j (c # rest)) l h dir c charOffset = Ok (lo', hi')"
          by (auto split: result.splits if_splits)
        from addrRegexp_range [OF rx p]
        have lh': "0 \<le> l" "l \<le> h" "h \<le> int (length data)" by simp_all
        from regexpEnd_pos [OF e] have "1 \<le> j" by simp
        then have sh: "length (drop j (c # rest)) < length addr"
          using Cons by (cases j) simp_all
        have "CHR '','' \<notin> set addr \<Longrightarrow> CHR '','' \<notin> set (drop j (c # rest))"
          using Cons in_set_dropD by fastforce
        with IH [OF sh lh' r] show ?thesis by blast
      next
        case other
        with Cons run show ?thesis by simp
      qed
    qed
  qed
qed

lemma findLiteral_range:
  "findLiteral pat k bs = Some (a, b) \<Longrightarrow> k \<le> a \<and> a \<le> b \<and> b \<le> k + length bs"
proof (induction bs arbitrary: k)
  case Nil
  then show ?case by (simp split: if_splits)
next
  case (Cons c cs)
  show ?case
  proof (cases "take (length pat) (c # cs) = pat")
    case True
    then have "length (take (length pat) (c # cs)) = length pat" by simp
    then have "min (length pat) (length (c # cs)) = length pat" by (simp only: length_take)
    then have "length pat \<le> length (c # cs)" by linarith
    with True Cons.prems show ?thesis by auto
  next
    case False
    with Cons.prems have "findLiteral pat (k + 1) cs = Some (a, b)" by simp
    from Cons.IH [OF this] show ?thesis by simp
  qed
qed

lemma literalRegexp_ok: "regexp_ok literalRegexp"
  unfolding regexp_ok_def
proof (intro allI impI)
  fix pattern re bs a b
  assume "literalRegexp pattern = Some re" and m: "re bs = Some (a, b)"
  then have "re = findLiteral pattern 0"
    by (simp add: literalRegexp_def split: if_splits)
  with m findLiteral_range [of pattern 0 bs a b] show "a \<le> b \<and> b \<le> length bs" by simp
qed

text \<open>
  C2 (as amended). For every buffer, every initial position \<open>0 \<le> start \<le> len(buffer)\<close>
  and every address expression on which evaluation succeeds, both ends of the returned
  range lie in the buffer, \<open>0 \<le> lo \<le> len(buffer)\<close> and \<open>0 \<le> hi \<le> len(buffer)\<close>, and
  \<open>lo \<le> hi\<close> holds when the expression has no comma. (The regexp library is assumed
  to report matches inside the slice it searched.)
\<close>

theorem resolved_range_in_buffer:
  assumes "regexp_ok rx" and "0 \<le> start" and "start \<le> int (length data)"
    and "addrToByteRange rx addr start data = Ok (lo, hi)"
  shows "0 \<le> lo \<and> lo \<le> int (length data) \<and> 0 \<le> hi \<and> hi \<le> int (length data) \<and>
         (CHR '','' \<notin> set addr \<longrightarrow> lo \<le> hi)"
proof -
  from assms(4) have "addrLoop rx data addr start start nodir nodir False = Ok (lo, hi)"
    by (simp add: addrToByteRange_def)
  with addrLoop_range_aux [OF assms(1), of data addr] assms(2,3)
  have "inBuffer data lo \<and> inBuffer data hi \<and> (CHR '','' \<notin> set addr \<longrightarrow> lo \<le> hi)"
    by blast
  then show ?thesis by (simp add: inBuffer_def)
qed

theorem resolved_range_in_buffer_witness:
  "regexp_ok literalRegexp \<and>
   addrToByteRange literalRegexp ''2-/b/'' 0 [CHR ''a'', newline, CHR ''b'', newline, CHR ''c'', newline]
     = Err UnsupportedDirection \<and>
   addrToByteRange literalRegexp ''/b/'' 0 [CHR ''a'', newline, CHR ''b'', newline, CHR ''c'', newline]
     = Ok (2, 3) \<and>
   addrToByteRange literalRegexp ''/b/,3'' 0 [CHR ''a'', newline, CHR ''b'', newline, CHR ''c'', newline]
     = Ok (2, 6) \<and>
   (0::int) \<le> 2 \<and> (2::int) \<le> 6 \<and> (6::int) \<le> int (length [CHR ''a'', newline, CHR ''b'', newline, CHR ''c'', newline])"
proof -
  let ?d = "[CHR ''a'', newline, CHR ''b'', newline, CHR ''c'', newline]"
  have a: "addrToByteRange literalRegexp ''/b/'' 0 ?d = Ok (2, 3)"
    by (simp add: addrToByteRange_def addrRegexp_def literalRegexp_def metaChars_def
          regexpEnd_def regexpScan.simps isDigit_def)
  have b: "addrToByteRange literalRegexp ''/b/,3'' 0 ?d = Ok (2, 6)"
    by (simp add: addrToByteRange_def addrRegexp_def literalRegexp_def metaChars_def
          regexpEnd_def regexpScan.simps isDigit_def Atoi_def digitVal_def
          addrNumber_def addrForward_def lineFwd.simps)
  have c: "addrToByteRange literalRegexp ''2-/b/'' 0 ?d = Err UnsupportedDirection"
    by (simp add: addrToByteRange_def addrRegexp_def literalRegexp_def metaChars_def
          regexpEnd_def regexpScan.simps isDigit_def Atoi_def digitVal_def
          addrNumber_def addrForward_def lineFwd.simps)
  from resolved_range_in_buffer [OF literalRegexp_ok _ _ b]
  have "(0::int) \<le> 2 \<and> (2::int) \<le> 6 \<and> (6::int) \<le> int (length ?d)" by simp
  with literalRegexp_ok a b c show ?thesis by simp
qed

text \<open>
  The claim as first stated fails: a number after the comma is an absolute line
  number, so on a buffer of five lines \<^verbatim>\<open>5,2\<close> resolves to \<open>lo = 8\<close>, the start of line
  5, and \<open>hi = 4\<close>, the end of line 2.
\<close>

theorem comma_range_out_of_order:
  "addrToByteRange literalRegexp ''5,2'' 0
     [CHR ''a'', newline, CHR ''b'', newline, CHR ''c'', newline, CHR ''d'', newline,
      CHR ''e'', newline] = Ok (8, 4)"
  by (simp add: addrToByteRange_def isDigit_def Atoi_def digitVal_def
        addrNumber_def addrForward_def lineFwd.simps)

end
